theory Spec2Isabelle
  imports Main "HOL-Library.Word"
begin

section \<open>The buffer cache of kernel/bio.c\<close>

subsection \<open>Data model\<close>

text \<open>
  Addresses of \<^verbatim>\<open>struct buf\<close> objects: \<open>Head i\<close> is \<^verbatim>\<open>&bcache.head[i]\<close>, \<open>Buf i\<close> is
  \<^verbatim>\<open>&bcache.buf[i]\<close>, \<open>Null\<close> is the null pointer of zeroed static storage.
\<close>

datatype ptr = Null | Head nat | Buf nat

text \<open>
  Modelled from the spec: \<^verbatim>\<open>struct buf\<close> is declared in buf.h, which is not among the
  sources. The fields are the ones bio.c uses. \<open>dev\<close> and \<open>blockno\<close> are compared with the
  \<^verbatim>\<open>uint\<close> parameters of \<^verbatim>\<open>bget\<close>; \<open>valid\<close> is the flag of the spec; \<open>lock\<close> is the sleep
  lock, holding the pid of its owner; \<open>data\<close> is the payload. \<open>refcnt\<close> is the reference
  count of the spec, a \<^verbatim>\<open>uint\<close> like the other two: \<^verbatim>\<open>refcnt++\<close> and \<^verbatim>\<open>refcnt--\<close> wrap
  around at \<open>2 ^ 32\<close>, so one more than 4294967295 is 0 and one less than 0 is 4294967295.
\<close>

record buf =
  valid :: bool
  dev :: "32 word"
  blockno :: "32 word"
  lock :: "nat option"
  refcnt :: "32 word"
  prev :: ptr
  "next" :: ptr
  data :: "8 word list"

datatype lockid = Master | Bucket nat

datatype event =
    Acquire lockid
  | Release lockid
  | AcquireSleep ptr
  | Sleep ptr
  | ReleaseSleep ptr
  | DiskRW ptr bool

text \<open>
  The kernel state bio.c works on: the memory of \<^verbatim>\<open>bcache\<close>, the disk behind
  \<^verbatim>\<open>virtio_disk_rw\<close>, the channel each sleeping process waits on, and a log of the
  synchronisation and disk events in program order, each with the memory of \<^verbatim>\<open>bcache\<close>
  right after it.
\<close>

record kstate =
  bcache :: "ptr \<Rightarrow> buf"
  disk :: "32 word \<times> 32 word \<Rightarrow> 8 word list"
  chan :: "nat \<Rightarrow> ptr option"
  log :: "(event \<times> (ptr \<Rightarrow> buf)) list"

text \<open>
  How a call ends: \<open>Panic\<close> halts the kernel, \<open>Sleeping\<close> leaves the caller asleep
  inside \<^verbatim>\<open>acquiresleep\<close> on the given buffer, \<open>Return\<close> returns.
\<close>

datatype 'a outcome = Panic string | Sleeping kstate ptr | Return kstate 'a

definition NBUCKET :: nat where
  "NBUCKET = 13"

definition HASH :: "32 word \<Rightarrow> nat" where
  "HASH x = unat x mod NBUCKET"

definition upd :: "ptr \<Rightarrow> (buf \<Rightarrow> buf) \<Rightarrow> kstate \<Rightarrow> kstate" where
  "upd p f s = s\<lparr>bcache := (bcache s)(p := f (bcache s p))\<rparr>"

definition logev :: "event \<Rightarrow> kstate \<Rightarrow> kstate" where
  "logev e s = s\<lparr>log := log s @ [(e, bcache s)]\<rparr>"

subsection \<open>The collaborators of bio.c\<close>

text \<open>
  Modelled from the spec: spinlock.c is not among the sources. Operations run one at a
  time here, so a spinlock is free whenever it is acquired; \<open>acquire\<close> and \<open>release\<close>
  leave their event in the log. Contention is the subject of the step machine below.
\<close>

definition initlock :: "lockid \<Rightarrow> kstate \<Rightarrow> kstate" where
  "initlock lk s = s"

definition acquire :: "lockid \<Rightarrow> kstate \<Rightarrow> kstate" where
  "acquire lk s = logev (Acquire lk) s"

definition release :: "lockid \<Rightarrow> kstate \<Rightarrow> kstate" where
  "release lk s = logev (Release lk) s"

text \<open>
  Modelled from the spec: sleeplock.c is not among the sources. The serialization lock
  is a blocking, owner-tracked lock: \<open>acquiresleep\<close> takes a free lock for the caller
  and otherwise puts the caller to sleep on the buffer; \<open>holdingsleep\<close> asks whether
  the caller is the owner.
\<close>

definition initsleeplock :: "ptr \<Rightarrow> kstate \<Rightarrow> kstate" where
  "initsleeplock b s = upd b (\<lambda>x. x\<lparr>lock := None\<rparr>) s"

definition holdingsleep :: "nat \<Rightarrow> ptr \<Rightarrow> kstate \<Rightarrow> bool" where
  "holdingsleep pid b s = (lock (bcache s b) = Some pid)"

definition acquiresleep :: "nat \<Rightarrow> ptr \<Rightarrow> kstate \<Rightarrow> ptr outcome" where
  "acquiresleep pid b s =
     (if lock (bcache s b) = None
      then Return (logev (AcquireSleep b)
                    ((upd b (\<lambda>x. x\<lparr>lock := Some pid\<rparr>) s)\<lparr>chan := (chan s)(pid := None)\<rparr>)) b
      else Sleeping (logev (Sleep b) (s\<lparr>chan := (chan s)(pid := Some b)\<rparr>)) b)"

definition releasesleep :: "ptr \<Rightarrow> kstate \<Rightarrow> kstate" where
  "releasesleep b s = logev (ReleaseSleep b) (upd b (\<lambda>x. x\<lparr>lock := None\<rparr>) s)"

text \<open>
  Modelled from the spec: virtio_disk.c is not among the sources. The transfer is
  synchronous; direction in (\<open>False\<close>) fills the payload from the block the buffer names,
  direction out (\<open>True\<close>) writes the payload to that block.
\<close>

definition virtio_disk_rw :: "ptr \<Rightarrow> bool \<Rightarrow> kstate \<Rightarrow> kstate" where
  "virtio_disk_rw b w s =
     (let k = (dev (bcache s b), blockno (bcache s b)) in
      if w then logev (DiskRW b True) (s\<lparr>disk := (disk s)(k := data (bcache s b))\<rparr>)
      else logev (DiskRW b False) (upd b (\<lambda>x. x\<lparr>data := disk s k\<rparr>) s))"

subsection \<open>binit\<close>

text \<open>
  \<^verbatim>\<open>bcache\<close> has static storage, so it is all zeros when \<^verbatim>\<open>binit\<close> runs: \<^verbatim>\<open>binit\<close>
  sets the links and the locks and no other field.
\<close>

definition zero_buf :: buf where
  "zero_buf = \<lparr>valid = False, dev = 0, blockno = 0, lock = None, refcnt = 0,
               prev = Null, next = Null, data = []\<rparr>"

definition startup :: "(32 word \<times> 32 word \<Rightarrow> 8 word list) \<Rightarrow> kstate" where
  "startup dsk = \<lparr>bcache = (\<lambda>p. zero_buf), disk = dsk, chan = (\<lambda>pid. None), log = []\<rparr>"

definition binit_head :: "nat \<Rightarrow> kstate \<Rightarrow> kstate" where
  "binit_head i s =
     (let s = initlock (Bucket i) s;
          s = upd (Head i) (\<lambda>x. x\<lparr>prev := Head i\<rparr>) s;
          s = upd (Head i) (\<lambda>x. x\<lparr>next := Head i\<rparr>) s
      in s)"

definition binit_buf :: "ptr \<Rightarrow> kstate \<Rightarrow> kstate" where
  "binit_buf b s =
     (let s = upd b (\<lambda>x. x\<lparr>next := next (bcache s (Head 0))\<rparr>) s;
          s = upd b (\<lambda>x. x\<lparr>prev := Head 0\<rparr>) s;
          s = initsleeplock b s;
          s = upd (next (bcache s (Head 0))) (\<lambda>x. x\<lparr>prev := b\<rparr>) s;
          s = upd (Head 0) (\<lambda>x. x\<lparr>next := b\<rparr>) s
      in s)"

definition binit :: "nat \<Rightarrow> kstate \<Rightarrow> kstate" where
  "binit NBUF s =
     (let s = initlock Master s;
          s = fold binit_head [0..<NBUCKET] s;
          s = fold binit_buf (map Buf [0..<NBUF]) s
      in s)"

subsection \<open>bget\<close>

text \<open>The loop of lines 73 to 82; it need not end on a list that is not well linked.\<close>

partial_function (option) bucket_scan ::
  "(ptr \<Rightarrow> buf) \<Rightarrow> nat \<Rightarrow> 32 word \<Rightarrow> 32 word \<Rightarrow> ptr \<Rightarrow> ptr option option" where
  "bucket_scan m h d bn b =
     (if b = Head h then Some None
      else if dev (m b) = d \<and> blockno (m b) = bn then Some (Some b)
      else bucket_scan m h d bn (next (m b)))"

declare bucket_scan.simps [code]

text \<open>Lines 96 to 99 and 111 to 114.\<close>

definition claim :: "ptr \<Rightarrow> 32 word \<Rightarrow> 32 word \<Rightarrow> kstate \<Rightarrow> kstate" where
  "claim b d bn s =
     (let s = upd b (\<lambda>x. x\<lparr>dev := d\<rparr>) s;
          s = upd b (\<lambda>x. x\<lparr>blockno := bn\<rparr>) s;
          s = upd b (\<lambda>x. x\<lparr>valid := False\<rparr>) s;
          s = upd b (\<lambda>x. x\<lparr>refcnt := 1\<rparr>) s
      in s)"

text \<open>Lines 117 to 122.\<close>

definition relink :: "ptr \<Rightarrow> nat \<Rightarrow> kstate \<Rightarrow> kstate" where
  "relink b h s =
     (let s = upd (prev (bcache s b)) (\<lambda>x. x\<lparr>next := next (bcache s b)\<rparr>) s;
          s = upd (next (bcache s b)) (\<lambda>x. x\<lparr>prev := prev (bcache s b)\<rparr>) s;
          s = upd b (\<lambda>x. x\<lparr>next := next (bcache s (Head h))\<rparr>) s;
          s = upd b (\<lambda>x. x\<lparr>prev := Head h\<rparr>) s;
          s = upd (next (bcache s (Head h))) (\<lambda>x. x\<lparr>prev := b\<rparr>) s;
          s = upd (Head h) (\<lambda>x. x\<lparr>next := b\<rparr>) s
      in s)"

text \<open>The loop of lines 87 to 131 over the pool, and lines 132 to 134 after it.\<close>

fun bget_free :: "nat \<Rightarrow> ptr list \<Rightarrow> nat \<Rightarrow> 32 word \<Rightarrow> 32 word \<Rightarrow> kstate \<Rightarrow> ptr outcome" where
  "bget_free pid [] h d bn s =
     (let s = release Master s;
          s = release (Bucket h) s
      in Panic ''bget: no buffers'')"
| "bget_free pid (b # bs) h d bn s =
     (let current_h = HASH (blockno (bcache s b)) in
      if current_h = h then
        (if refcnt (bcache s b) = 0 then
           (let s = claim b d bn s;
                s = release Master s;
                s = release (Bucket h) s
            in acquiresleep pid b s)
         else bget_free pid bs h d bn s)
      else
        (let s = acquire (Bucket current_h) s in
         if refcnt (bcache s b) = 0 then
           (let s = claim b d bn s;
                s = relink b h s;
                s = release (Bucket current_h) s;
                s = release (Bucket h) s;
                s = release Master s
            in acquiresleep pid b s)
         else bget_free pid bs h d bn (release (Bucket current_h) s)))"

definition bget :: "nat \<Rightarrow> nat \<Rightarrow> 32 word \<Rightarrow> 32 word \<Rightarrow> kstate \<Rightarrow> ptr outcome option" where
  "bget NBUF pid d bn s =
     (let h = HASH bn;
          s = acquire (Bucket h) s
      in case bucket_scan (bcache s) h d bn (next (bcache s (Head h))) of
           None \<Rightarrow> None
         | Some (Some b) \<Rightarrow>
             (let s = upd b (\<lambda>x. x\<lparr>refcnt := refcnt x + 1\<rparr>) s;
                  s = release (Bucket h) s
              in Some (acquiresleep pid b s))
         | Some None \<Rightarrow>
             (let s = acquire Master s
              in Some (bget_free pid (map Buf [0..<NBUF]) h d bn s)))"

subsection \<open>bread, bwrite, brelse, bpin, bunpin\<close>

text \<open>Lines 144 to 149, what \<^verbatim>\<open>bread\<close> does once \<^verbatim>\<open>bget\<close> has returned.\<close>

definition bread_tail :: "ptr \<Rightarrow> kstate \<Rightarrow> kstate" where
  "bread_tail b s =
     (if \<not> valid (bcache s b)
      then (let s = virtio_disk_rw b False s;
                s = upd b (\<lambda>x. x\<lparr>valid := True\<rparr>) s
            in s)
      else s)"

fun after_bget :: "ptr outcome \<Rightarrow> ptr outcome" where
  "after_bget (Return s b) = Return (bread_tail b s) b"
| "after_bget (Sleeping s b) = Sleeping s b"
| "after_bget (Panic msg) = Panic msg"

definition bread :: "nat \<Rightarrow> nat \<Rightarrow> 32 word \<Rightarrow> 32 word \<Rightarrow> kstate \<Rightarrow> ptr outcome option" where
  "bread NBUF pid d bn s = map_option after_bget (bget NBUF pid d bn s)"

text \<open>
  A caller asleep in the \<^verbatim>\<open>acquiresleep\<close> of \<^verbatim>\<open>bget\<close> is woken: it tries the lock again
  and, with the lock, finishes \<^verbatim>\<open>bget\<close> and \<^verbatim>\<open>bread\<close>.
\<close>

definition bread_wakeup :: "nat \<Rightarrow> ptr \<Rightarrow> kstate \<Rightarrow> ptr outcome" where
  "bread_wakeup pid b s = after_bget (acquiresleep pid b s)"

definition bwrite :: "nat \<Rightarrow> ptr \<Rightarrow> kstate \<Rightarrow> unit outcome" where
  "bwrite pid b s =
     (if \<not> holdingsleep pid b s then Panic ''bwrite''
      else Return (virtio_disk_rw b True s) ())"

definition brelse :: "nat \<Rightarrow> ptr \<Rightarrow> kstate \<Rightarrow> unit outcome" where
  "brelse pid b s =
     (if \<not> holdingsleep pid b s then Panic ''brelse''
      else
        (let s = releasesleep b s;
             h = HASH (blockno (bcache s b));
             s = acquire (Bucket h) s;
             s = upd b (\<lambda>x. x\<lparr>refcnt := refcnt x - 1\<rparr>) s;
             s = release (Bucket h) s
         in Return s ()))"

definition bpin :: "ptr \<Rightarrow> kstate \<Rightarrow> kstate" where
  "bpin b s =
     (let h = HASH (blockno (bcache s b));
          s = acquire (Bucket h) s;
          s = upd b (\<lambda>x. x\<lparr>refcnt := refcnt x + 1\<rparr>) s;
          s = release (Bucket h) s
      in s)"

definition bunpin :: "ptr \<Rightarrow> kstate \<Rightarrow> kstate" where
  "bunpin b s =
     (let h = HASH (blockno (bcache s b));
          s = acquire (Bucket h) s;
          s = upd b (\<lambda>x. x\<lparr>refcnt := refcnt x - 1\<rparr>) s;
          s = release (Bucket h) s
      in s)"

section \<open>Bucket lists\<close>

text \<open>
  The list of a bucket is what the loop of \<^verbatim>\<open>bget\<close> visits: the buffers from
  \<^verbatim>\<open>head[h].next\<close> along \<^verbatim>\<open>next\<close> up to \<^verbatim>\<open>&head[h]\<close>. \<open>bucket_ok m h xs\<close> says that
  \<open>xs\<close> is that list and that \<^verbatim>\<open>prev\<close> mirrors \<^verbatim>\<open>next\<close> along it; \<open>well_linked NBUF m L\<close> says
  that every bucket is such a list and that a buffer of the pool is in the bucket of its
  block number and in no other.
\<close>

partial_function (option) walk :: "(ptr \<Rightarrow> buf) \<Rightarrow> nat \<Rightarrow> ptr \<Rightarrow> ptr list option" where
  "walk m h b =
     (if b = Head h then Some []
      else Option.bind (walk m h (next (m b))) (\<lambda>xs. Some (b # xs)))"

declare walk.simps [code]

definition bucket_list :: "(ptr \<Rightarrow> buf) \<Rightarrow> nat \<Rightarrow> ptr list option" where
  "bucket_list m h = walk m h (next (m (Head h)))"

definition linkrel :: "(ptr \<Rightarrow> buf) \<Rightarrow> ptr \<Rightarrow> ptr \<Rightarrow> bool" where
  "linkrel m x y \<longleftrightarrow> next (m x) = y \<and> prev (m y) = x"

definition bucket_ok :: "(ptr \<Rightarrow> buf) \<Rightarrow> nat \<Rightarrow> ptr list \<Rightarrow> bool" where
  "bucket_ok m h xs \<longleftrightarrow>
     successively (linkrel m) (Head h # xs @ [Head h]) \<and> distinct xs \<and> (\<forall>x\<in>set xs. \<exists>i. x = Buf i)"

definition well_linked :: "nat \<Rightarrow> (ptr \<Rightarrow> buf) \<Rightarrow> (nat \<Rightarrow> ptr list) \<Rightarrow> bool" where
  "well_linked NBUF m L \<longleftrightarrow>
     (\<forall>h<NBUCKET. bucket_ok m h (L h)) \<and>
     (\<forall>i h. h < NBUCKET \<longrightarrow> (Buf i \<in> set (L h) \<longleftrightarrow> i < NBUF \<and> HASH (blockno (m (Buf i))) = h))"

text \<open>
  The memory after lines 117 and 118 (\<open>m_unlink\<close>), after lines 119 to 122 (\<open>m_push\<close>) and
  after lines 96 to 99 (\<open>claimed\<close>).
\<close>

definition m_unlink :: "ptr \<Rightarrow> (ptr \<Rightarrow> buf) \<Rightarrow> (ptr \<Rightarrow> buf)" where
  "m_unlink b m =
     (let m1 = m(prev (m b) := (m (prev (m b)))\<lparr>next := next (m b)\<rparr>);
          m2 = m1(next (m1 b) := (m1 (next (m1 b)))\<lparr>prev := prev (m1 b)\<rparr>)
      in m2)"

definition m_push :: "ptr \<Rightarrow> nat \<Rightarrow> (ptr \<Rightarrow> buf) \<Rightarrow> (ptr \<Rightarrow> buf)" where
  "m_push b h m =
     (let m1 = m(b := (m b)\<lparr>next := next (m (Head h))\<rparr>);
          m2 = m1(b := (m1 b)\<lparr>prev := Head h\<rparr>);
          m3 = m2(next (m2 (Head h)) := (m2 (next (m2 (Head h))))\<lparr>prev := b\<rparr>);
          m4 = m3(Head h := (m3 (Head h))\<lparr>next := b\<rparr>)
      in m4)"

definition claimed :: "ptr \<Rightarrow> 32 word \<Rightarrow> 32 word \<Rightarrow> (ptr \<Rightarrow> buf) \<Rightarrow> (ptr \<Rightarrow> buf)" where
  "claimed b d bn m = m(b := (m b)\<lparr>dev := d, blockno := bn, valid := False, refcnt := 1\<rparr>)"

text \<open>The memory after the first loop of \<^verbatim>\<open>binit\<close>, and what \<^verbatim>\<open>binit\<close> never writes.\<close>

definition heads_only :: "nat \<Rightarrow> ptr \<Rightarrow> buf" where
  "heads_only n p = (case p of Head i \<Rightarrow> if i < n then zero_buf\<lparr>prev := p, next := p\<rparr> else zero_buf | _ \<Rightarrow> zero_buf)"

definition zeroed :: "(ptr \<Rightarrow> buf) \<Rightarrow> bool" where
  "zeroed m \<longleftrightarrow> (\<forall>p. \<not> valid (m p) \<and> dev (m p) = 0 \<and> blockno (m p) = 0 \<and> lock (m p) = None
      \<and> refcnt (m p) = 0 \<and> data (m p) = [])"

definition boot_lists :: "nat \<Rightarrow> nat \<Rightarrow> ptr list" where
  "boot_lists NBUF h = (if h = 0 then rev (map Buf [0..<NBUF]) else [])"

text \<open>
  \<open>skipped s s1\<close>: the pool scan has passed over busy buffers, which leaves events in
  the log and nothing else.
\<close>

definition skipped :: "kstate \<Rightarrow> kstate \<Rightarrow> bool" where
  "skipped s s1 \<longleftrightarrow> bcache s1 = bcache s \<and> disk s1 = disk s \<and> chan s1 = chan s \<and>
     (\<exists>es. log s1 = log s @ es \<and> (\<forall>e\<in>set es. snd e = bcache s))"

section \<open>Runs of the cache\<close>

text \<open>
  \<open>first_match m L b\<close>: the bucket scan for the device and block number of \<open>b\<close> stops
  at \<open>b\<close>. The invariant \<open>run_inv\<close> of a run: the cache is well linked, every valid buffer
  and every buffer a caller sleeps on is such a first match, and the cache was well
  linked in the memory logged at every release of a spinlock.
\<close>

definition first_match :: "(ptr \<Rightarrow> buf) \<Rightarrow> (nat \<Rightarrow> ptr list) \<Rightarrow> ptr \<Rightarrow> bool" where
  "first_match m L b \<longleftrightarrow>
     find (\<lambda>x. dev (m x) = dev (m b) \<and> blockno (m x) = blockno (m b)) (L (HASH (blockno (m b)))) = Some b"

fun is_release :: "event \<Rightarrow> bool" where
  "is_release (Release lk) = True"
| "is_release e = False"

definition at_release :: "kstate \<Rightarrow> (ptr \<Rightarrow> buf) list" where
  "at_release s = map snd (filter (\<lambda>e. is_release (fst e)) (log s))"

definition firsts :: "nat \<Rightarrow> kstate \<Rightarrow> (nat \<Rightarrow> ptr list) \<Rightarrow> bool" where
  "firsts NBUF s L \<longleftrightarrow>
     (\<forall>i<NBUF. valid (bcache s (Buf i)) \<longrightarrow> first_match (bcache s) L (Buf i)) \<and>
     (\<forall>pid b. chan s pid = Some b \<longrightarrow> first_match (bcache s) L b)"

definition run_inv :: "nat \<Rightarrow> kstate \<Rightarrow> bool" where
  "run_inv NBUF s \<longleftrightarrow>
     (\<exists>L. well_linked NBUF (bcache s) L \<and> firsts NBUF s L) \<and> (\<forall>m\<in>set (at_release s). \<exists>L. well_linked NBUF m L)"

text \<open>
  A run starts with \<^verbatim>\<open>binit\<close> on zeroed storage and goes on with calls that return or
  leave the caller asleep, one at a time; \<open>Wakeup\<close> lets a caller asleep in \<^verbatim>\<open>bread\<close> try
  again. A sleeping caller makes no call, a handle is a buffer of the pool, and a run
  ends at a panic. The history has the latest call first.
\<close>

datatype call =
    Bread nat "32 word" "32 word" ptr
  | Wakeup nat ptr
  | Bwrite nat ptr
  | Brelse nat ptr
  | Bpin ptr
  | Bunpin ptr

inductive exec :: "nat \<Rightarrow> call list \<Rightarrow> kstate \<Rightarrow> bool" for NBUF :: nat where
  ex_boot: "exec NBUF [] (binit NBUF (startup dsk))"
| ex_read: "exec NBUF hist s \<Longrightarrow> chan s pid = None \<Longrightarrow> bread NBUF pid d bn s = Some (Return s' b)
     \<Longrightarrow> exec NBUF (Bread pid d bn b # hist) s'"
| ex_read_sleep: "exec NBUF hist s \<Longrightarrow> chan s pid = None \<Longrightarrow> bread NBUF pid d bn s = Some (Sleeping s' b)
     \<Longrightarrow> exec NBUF (Bread pid d bn b # hist) s'"
| ex_wakeup: "exec NBUF hist s \<Longrightarrow> chan s pid = Some b \<Longrightarrow> bread_wakeup pid b s = Return s' b'
     \<Longrightarrow> exec NBUF (Wakeup pid b # hist) s'"
| ex_wakeup_sleep: "exec NBUF hist s \<Longrightarrow> chan s pid = Some b \<Longrightarrow> bread_wakeup pid b s = Sleeping s' b'
     \<Longrightarrow> exec NBUF (Wakeup pid b # hist) s'"
| ex_write: "exec NBUF hist s \<Longrightarrow> chan s pid = None \<Longrightarrow> i < NBUF \<Longrightarrow> bwrite pid (Buf i) s = Return s' ()
     \<Longrightarrow> exec NBUF (Bwrite pid (Buf i) # hist) s'"
| ex_release: "exec NBUF hist s \<Longrightarrow> chan s pid = None \<Longrightarrow> i < NBUF \<Longrightarrow> brelse pid (Buf i) s = Return s' ()
     \<Longrightarrow> exec NBUF (Brelse pid (Buf i) # hist) s'"
| ex_pin: "exec NBUF hist s \<Longrightarrow> i < NBUF \<Longrightarrow> exec NBUF (Bpin (Buf i) # hist) (bpin (Buf i) s)"
| ex_unpin: "exec NBUF hist s \<Longrightarrow> i < NBUF \<Longrightarrow> exec NBUF (Bunpin (Buf i) # hist) (bunpin (Buf i) s)"

text \<open>
  \<open>bcache_ok\<close>: the cache is well linked, for some lists. \<open>home_linked\<close>: every bucket
  has a list without repetition that holds exactly the buffers of the pool whose block
  number hashes to it.
\<close>

definition bcache_ok :: "nat \<Rightarrow> (ptr \<Rightarrow> buf) \<Rightarrow> bool" where
  "bcache_ok NBUF m \<longleftrightarrow> (\<exists>L. well_linked NBUF m L)"


text \<open>Concrete states, and what to read off the outcome of a call.\<close>

definition blank_disk :: "32 word \<times> 32 word \<Rightarrow> 8 word list" where
  "blank_disk k = []"

fun returned :: "'a outcome option \<Rightarrow> 'a option" where
  "returned (Some (Return s v)) = Some v"
| "returned r = None"

fun result_state :: "'a outcome option \<Rightarrow> kstate option" where
  "result_state (Some (Return s v)) = Some s"
| "result_state (Some (Sleeping s b)) = Some s"
| "result_state r = None"

definition slept :: "nat \<Rightarrow> ptr \<Rightarrow> kstate \<Rightarrow> kstate" where
  "slept pid b s =
     (if lock (bcache s b) = None
      then logev (AcquireSleep b) ((upd b (\<lambda>x. x\<lparr>lock := Some pid\<rparr>) s)\<lparr>chan := (chan s)(pid := None)\<rparr>)
      else logev (Sleep b) (s\<lparr>chan := (chan s)(pid := Some b)\<rparr>))"

definition boot :: "nat \<Rightarrow> kstate" where
  "boot NBUF = binit NBUF (startup blank_disk)"

definition release_lists :: "kstate option \<Rightarrow> nat \<Rightarrow> ptr list option list" where
  "release_lists r h = (case r of None \<Rightarrow> [] | Some s \<Rightarrow> map (\<lambda>m. bucket_list m h) (at_release s))"

definition final_list :: "kstate option \<Rightarrow> nat \<Rightarrow> ptr list option" where
  "final_list r h = (case r of None \<Rightarrow> None | Some s \<Rightarrow> bucket_list (bcache s) h)"

definition after_read :: "nat \<Rightarrow> kstate" where
  "after_read NBUF = the (result_state (bread NBUF 7 0 0 (boot NBUF)))"

definition after_release :: kstate where
  "after_release = the (result_state (Some (brelse 7 (Buf 1) (after_read 2))))"

text \<open>
  The reads of a buffer not yet released and the pins not yet undone, counted along the
  history; \<open>paired\<close> says that every \<^verbatim>\<open>brelse\<close> and every \<^verbatim>\<open>bunpin\<close> of the history
  found such a read or pin.
\<close>

fun reads :: "call list \<Rightarrow> ptr \<Rightarrow> int" where
  "reads [] b = 0"
| "reads (Bread pid d bn b' # hist) b = reads hist b + (if b' = b then 1 else 0)"
| "reads (Brelse pid b' # hist) b = reads hist b - (if b' = b then 1 else 0)"
| "reads (c # hist) b = reads hist b"

fun pins :: "call list \<Rightarrow> ptr \<Rightarrow> int" where
  "pins [] b = 0"
| "pins (Bpin b' # hist) b = pins hist b + (if b' = b then 1 else 0)"
| "pins (Bunpin b' # hist) b = pins hist b - (if b' = b then 1 else 0)"
| "pins (c # hist) b = pins hist b"

fun paired :: "call list \<Rightarrow> bool" where
  "paired [] = True"
| "paired (Brelse pid b # hist) = (0 < reads hist b \<and> paired hist)"
| "paired (Bunpin b # hist) = (0 < pins hist b \<and> paired hist)"
| "paired (c # hist) = paired hist"

section \<open>bget on several CPUs\<close>

text \<open>
  The step machine: \<^verbatim>\<open>bget\<close> as it runs on several CPUs at once, one source statement
  of bio.c per step. A label is the line about to run (the two \<^verbatim>\<open>for\<close> statements have
  their initialisation, test and increment apart). Each caller has its arguments and its
  locals; the memory of \<^verbatim>\<open>bcache\<close> and the spinlocks are shared. \<open>bget_step\<close> is
  \<open>None\<close> when the caller cannot move: it waits for a lock that is held, or it is done.
\<close>

datatype label =
    L69 | L70 | L73_init | L73_test | L73_next | L75 | L77 | L78 | L79 | L80
  | L85 | L87_init | L87_test | L87_next | L90 | L92 | L94 | L96 | L97 | L98 | L99
  | L101 | L102 | L103 | L104 | L106
  | L109 | L110 | L111 | L112 | L113 | L114 | L117 | L118 | L119 | L120 | L121 | L122
  | L124 | L125 | L126 | L127 | L128 | L130
  | L132 | L133 | L134 | Returned ptr | Panicked

record thread =
  pc :: label
  a_dev :: "32 word"
  a_blockno :: "32 word"
  v_h :: nat
  v_b :: ptr
  v_current_h :: nat

record conf =
  mem :: "ptr \<Rightarrow> buf"
  spin :: "lockid \<Rightarrow> nat option"
  thr :: "nat \<Rightarrow> thread"

definition jump :: "nat \<Rightarrow> label \<Rightarrow> conf \<Rightarrow> conf" where
  "jump t l c = c\<lparr>thr := (thr c)(t := (thr c t)\<lparr>pc := l\<rparr>)\<rparr>"

definition store :: "ptr \<Rightarrow> (buf \<Rightarrow> buf) \<Rightarrow> conf \<Rightarrow> conf" where
  "store p f c = c\<lparr>mem := (mem c)(p := f (mem c p))\<rparr>"

definition spin_acquire :: "nat \<Rightarrow> lockid \<Rightarrow> conf \<Rightarrow> conf option" where
  "spin_acquire t lk c = (if spin c lk = None then Some (c\<lparr>spin := (spin c)(lk := Some t)\<rparr>) else None)"

definition spin_release :: "lockid \<Rightarrow> conf \<Rightarrow> conf" where
  "spin_release lk c = c\<lparr>spin := (spin c)(lk := None)\<rparr>"

definition sleep_acquire :: "nat \<Rightarrow> ptr \<Rightarrow> conf \<Rightarrow> conf option" where
  "sleep_acquire t b c =
     (if lock (mem c b) = None then Some (store b (\<lambda>x. x\<lparr>lock := Some t\<rparr>) c) else None)"

fun bump :: "ptr \<Rightarrow> ptr" where
  "bump (Buf i) = Buf (Suc i)"
| "bump (Head i) = Head (Suc i)"
| "bump Null = Null"

fun step_at :: "label \<Rightarrow> nat \<Rightarrow> nat \<Rightarrow> conf \<Rightarrow> conf option" where
  "step_at L69 NBUF t c =
     Some (jump t L70 (c\<lparr>thr := (thr c)(t := (thr c t)\<lparr>v_h := HASH (a_blockno (thr c t))\<rparr>)\<rparr>))"
| "step_at L70 NBUF t c = map_option (jump t L73_init) (spin_acquire t (Bucket (v_h (thr c t))) c)"
| "step_at L73_init NBUF t c =
     Some (jump t L73_test (c\<lparr>thr := (thr c)(t := (thr c t)\<lparr>v_b := next (mem c (Head (v_h (thr c t))))\<rparr>)\<rparr>))"
| "step_at L73_test NBUF t c =
     Some (jump t (if v_b (thr c t) \<noteq> Head (v_h (thr c t)) then L75 else L85) c)"
| "step_at L73_next NBUF t c =
     Some (jump t L73_test (c\<lparr>thr := (thr c)(t := (thr c t)\<lparr>v_b := next (mem c (v_b (thr c t)))\<rparr>)\<rparr>))"
| "step_at L75 NBUF t c =
     Some (jump t (if dev (mem c (v_b (thr c t))) = a_dev (thr c t) \<and>
                      blockno (mem c (v_b (thr c t))) = a_blockno (thr c t) then L77 else L73_next) c)"
| "step_at L77 NBUF t c = Some (jump t L78 (store (v_b (thr c t)) (\<lambda>x. x\<lparr>refcnt := refcnt x + 1\<rparr>) c))"
| "step_at L78 NBUF t c = Some (jump t L79 (spin_release (Bucket (v_h (thr c t))) c))"
| "step_at L79 NBUF t c = map_option (jump t L80) (sleep_acquire t (v_b (thr c t)) c)"
| "step_at L80 NBUF t c = Some (jump t (Returned (v_b (thr c t))) c)"
| "step_at L85 NBUF t c = map_option (jump t L87_init) (spin_acquire t Master c)"
| "step_at L87_init NBUF t c =
     Some (jump t L87_test (c\<lparr>thr := (thr c)(t := (thr c t)\<lparr>v_b := Buf 0\<rparr>)\<rparr>))"
| "step_at L87_test NBUF t c = Some (jump t (if v_b (thr c t) \<noteq> Buf NBUF then L90 else L132) c)"
| "step_at L87_next NBUF t c =
     Some (jump t L87_test (c\<lparr>thr := (thr c)(t := (thr c t)\<lparr>v_b := bump (v_b (thr c t))\<rparr>)\<rparr>))"
| "step_at L90 NBUF t c =
     Some (jump t L92 (c\<lparr>thr := (thr c)(t := (thr c t)
        \<lparr>v_current_h := HASH (blockno (mem c (v_b (thr c t))))\<rparr>)\<rparr>))"
| "step_at L92 NBUF t c =
     Some (jump t (if v_current_h (thr c t) = v_h (thr c t) then L94 else L109) c)"
| "step_at L94 NBUF t c =
     Some (jump t (if refcnt (mem c (v_b (thr c t))) = 0 then L96 else L106) c)"
| "step_at L96 NBUF t c = Some (jump t L97 (store (v_b (thr c t)) (\<lambda>x. x\<lparr>dev := a_dev (thr c t)\<rparr>) c))"
| "step_at L97 NBUF t c =
     Some (jump t L98 (store (v_b (thr c t)) (\<lambda>x. x\<lparr>blockno := a_blockno (thr c t)\<rparr>) c))"
| "step_at L98 NBUF t c = Some (jump t L99 (store (v_b (thr c t)) (\<lambda>x. x\<lparr>valid := False\<rparr>) c))"
| "step_at L99 NBUF t c = Some (jump t L101 (store (v_b (thr c t)) (\<lambda>x. x\<lparr>refcnt := 1\<rparr>) c))"
| "step_at L101 NBUF t c = Some (jump t L102 (spin_release Master c))"
| "step_at L102 NBUF t c = Some (jump t L103 (spin_release (Bucket (v_h (thr c t))) c))"
| "step_at L103 NBUF t c = map_option (jump t L104) (sleep_acquire t (v_b (thr c t)) c)"
| "step_at L104 NBUF t c = Some (jump t (Returned (v_b (thr c t))) c)"
| "step_at L106 NBUF t c = Some (jump t L87_next c)"
| "step_at L109 NBUF t c =
     map_option (jump t L110) (spin_acquire t (Bucket (v_current_h (thr c t))) c)"
| "step_at L110 NBUF t c =
     Some (jump t (if refcnt (mem c (v_b (thr c t))) = 0 then L111 else L130) c)"
| "step_at L111 NBUF t c = Some (jump t L112 (store (v_b (thr c t)) (\<lambda>x. x\<lparr>dev := a_dev (thr c t)\<rparr>) c))"
| "step_at L112 NBUF t c =
     Some (jump t L113 (store (v_b (thr c t)) (\<lambda>x. x\<lparr>blockno := a_blockno (thr c t)\<rparr>) c))"
| "step_at L113 NBUF t c = Some (jump t L114 (store (v_b (thr c t)) (\<lambda>x. x\<lparr>valid := False\<rparr>) c))"
| "step_at L114 NBUF t c = Some (jump t L117 (store (v_b (thr c t)) (\<lambda>x. x\<lparr>refcnt := 1\<rparr>) c))"
| "step_at L117 NBUF t c =
     Some (jump t L118 (store (prev (mem c (v_b (thr c t))))
                          (\<lambda>x. x\<lparr>next := next (mem c (v_b (thr c t)))\<rparr>) c))"
| "step_at L118 NBUF t c =
     Some (jump t L119 (store (next (mem c (v_b (thr c t))))
                          (\<lambda>x. x\<lparr>prev := prev (mem c (v_b (thr c t)))\<rparr>) c))"
| "step_at L119 NBUF t c =
     Some (jump t L120 (store (v_b (thr c t))
                          (\<lambda>x. x\<lparr>next := next (mem c (Head (v_h (thr c t))))\<rparr>) c))"
| "step_at L120 NBUF t c =
     Some (jump t L121 (store (v_b (thr c t)) (\<lambda>x. x\<lparr>prev := Head (v_h (thr c t))\<rparr>) c))"
| "step_at L121 NBUF t c =
     Some (jump t L122 (store (next (mem c (Head (v_h (thr c t)))))
                          (\<lambda>x. x\<lparr>prev := v_b (thr c t)\<rparr>) c))"
| "step_at L122 NBUF t c =
     Some (jump t L124 (store (Head (v_h (thr c t))) (\<lambda>x. x\<lparr>next := v_b (thr c t)\<rparr>) c))"
| "step_at L124 NBUF t c = Some (jump t L125 (spin_release (Bucket (v_current_h (thr c t))) c))"
| "step_at L125 NBUF t c = Some (jump t L126 (spin_release (Bucket (v_h (thr c t))) c))"
| "step_at L126 NBUF t c = Some (jump t L127 (spin_release Master c))"
| "step_at L127 NBUF t c = map_option (jump t L128) (sleep_acquire t (v_b (thr c t)) c)"
| "step_at L128 NBUF t c = Some (jump t (Returned (v_b (thr c t))) c)"
| "step_at L130 NBUF t c = Some (jump t L87_next (spin_release (Bucket (v_current_h (thr c t))) c))"
| "step_at L132 NBUF t c = Some (jump t L133 (spin_release Master c))"
| "step_at L133 NBUF t c = Some (jump t L134 (spin_release (Bucket (v_h (thr c t))) c))"
| "step_at L134 NBUF t c = Some (jump t Panicked c)"
| "step_at (Returned b) NBUF t c = None"
| "step_at Panicked NBUF t c = None"

definition bget_step :: "nat \<Rightarrow> nat \<Rightarrow> conf \<Rightarrow> conf option" where
  "bget_step NBUF t c = step_at (pc (thr c t)) NBUF t c"

fun run :: "nat \<Rightarrow> nat list \<Rightarrow> conf \<Rightarrow> conf option" where
  "run NBUF [] c = Some c"
| "run NBUF (t # ts) c = (case bget_step NBUF t c of None \<Rightarrow> None | Some c' \<Rightarrow> run NBUF ts c')"

definition caller :: "32 word \<Rightarrow> 32 word \<Rightarrow> thread" where
  "caller d bn = \<lparr>pc = L69, a_dev = d, a_blockno = bn, v_h = 0, v_b = Null, v_current_h = 0\<rparr>"

definition idle :: thread where
  "idle = \<lparr>pc = Panicked, a_dev = 0, a_blockno = 0, v_h = 0, v_b = Null, v_current_h = 0\<rparr>"

definition two_callers :: "nat \<Rightarrow> thread \<Rightarrow> thread \<Rightarrow> conf" where
  "two_callers NBUF T1 T2 =
     \<lparr>mem = bcache (boot NBUF), spin = (\<lambda>lk. None), thr = (\<lambda>t. idle)(1 := T1, 2 := T2)\<rparr>"

text \<open>
  One caller running alone to the end of its call, to compare the step machine with
  \<open>bget\<close> above: the same buffer returned, the same memory, every spinlock free.
\<close>

definition alone :: "nat \<Rightarrow> 32 word \<Rightarrow> 32 word \<Rightarrow> conf" where
  "alone NBUF d bn = two_callers NBUF (caller d bn) idle"

fun finish :: "nat \<Rightarrow> nat \<Rightarrow> nat \<Rightarrow> conf \<Rightarrow> conf" where
  "finish 0 NBUF t c = c"
| "finish (Suc k) NBUF t c =
     (case bget_step NBUF t c of None \<Rightarrow> c | Some c' \<Rightarrow> finish k NBUF t c')"

definition agrees :: "nat \<Rightarrow> 32 word \<Rightarrow> 32 word \<Rightarrow> ptr list \<Rightarrow> bool" where
  "agrees NBUF d bn ps \<longleftrightarrow>
     (case bget NBUF 1 d bn (boot NBUF) of
        Some (Return s b) \<Rightarrow>
          pc (thr (finish 100 NBUF 1 (alone NBUF d bn)) 1) = Returned b \<and>
          map (mem (finish 100 NBUF 1 (alone NBUF d bn))) ps = map (bcache s) ps \<and>
          map (spin (finish 100 NBUF 1 (alone NBUF d bn))) [Master, Bucket 0, Bucket 1] =
            [None, None, None]
      | _ \<Rightarrow> False)"

section \<open>Properties\<close>

subsection \<open>Doubly linked lists\<close>

lemma successively_change:
  "successively R xs \<Longrightarrow> (\<And>x y. x \<in> set (butlast xs) \<Longrightarrow> y \<in> set (tl xs) \<Longrightarrow> R x y \<Longrightarrow> R' x y)
     \<Longrightarrow> successively R' xs"
proof (induction xs rule: induct_list012)
  case (3 a b rest)
  have "successively R' (b # rest)"
  proof (rule 3)
    show "successively R (b # rest)" using "3.prems"(1) by simp
  next
    fix x y assume "x \<in> set (butlast (b # rest))" "y \<in> set (tl (b # rest))" "R x y"
    then show "R' x y" using "3.prems"(2)[of x y] by (auto split: if_splits)
  qed
  moreover have "R' a b" using "3.prems" by auto
  ultimately show ?case by simp
qed simp_all

lemma walk_chain:
  "successively (linkrel m) (a # xs @ [Head h]) \<Longrightarrow> Head h \<notin> set xs
     \<Longrightarrow> walk m h (next (m a)) = Some xs"
proof (induction xs arbitrary: a)
  case Nil
  then show ?case by (simp add: linkrel_def walk.simps)
next
  case (Cons x xs)
  then have "next (m a) = x" "x \<noteq> Head h" by (auto simp: linkrel_def)
  moreover have "walk m h (next (m x)) = Some xs" using Cons by simp
  ultimately show ?case by (subst walk.simps) simp
qed

lemma bucket_ok_list: "bucket_ok m h xs \<Longrightarrow> bucket_list m h = Some xs"
  unfolding bucket_ok_def bucket_list_def by (rule walk_chain) auto

lemma scan_chain:
  "successively (linkrel m) (a # xs @ [Head h]) \<Longrightarrow> Head h \<notin> set xs
     \<Longrightarrow> bucket_scan m h d bn (next (m a)) = Some (find (\<lambda>x. dev (m x) = d \<and> blockno (m x) = bn) xs)"
proof (induction xs arbitrary: a)
  case Nil
  then show ?case by (simp add: linkrel_def bucket_scan.simps)
next
  case (Cons x xs)
  then have "next (m a) = x" "x \<noteq> Head h" by (auto simp: linkrel_def)
  moreover have "bucket_scan m h d bn (next (m x)) = Some (find (\<lambda>x. dev (m x) = d \<and> blockno (m x) = bn) xs)" using Cons by simp
  ultimately show ?case by (subst bucket_scan.simps) simp
qed

lemma bucket_ok_scan:
  "bucket_ok m h xs \<Longrightarrow>
     bucket_scan m h d bn (next (m (Head h))) = Some (find (\<lambda>x. dev (m x) = d \<and> blockno (m x) = bn) xs)"
  unfolding bucket_ok_def by (rule scan_chain) auto

lemma bucket_ok_frame:
  assumes "bucket_ok m h xs"
    and "\<And>p. p \<in> insert (Head h) (set xs) \<Longrightarrow> next (m' p) = next (m p) \<and> prev (m' p) = prev (m p)"
  shows "bucket_ok m' h xs"
proof -
  have "successively (linkrel m') (Head h # xs @ [Head h])"
  proof (rule successively_change)
    show "successively (linkrel m) (Head h # xs @ [Head h])" using assms(1) by (simp add: bucket_ok_def)
  next
    fix x y assume "x \<in> set (butlast (Head h # xs @ [Head h]))" "y \<in> set (tl (Head h # xs @ [Head h]))" "linkrel m x y"
    then show "linkrel m' x y" using assms(2)[of x] assms(2)[of y]
      by (auto simp: linkrel_def butlast_append)
  qed
  then show ?thesis using assms(1) by (simp add: bucket_ok_def)
qed

lemma successively_split:
  "A \<noteq> [] \<Longrightarrow> B \<noteq> [] \<Longrightarrow>
     successively R (A @ b # B) \<longleftrightarrow> successively R A \<and> R (last A) b \<and> R b (hd B) \<and> successively R B"
  by (cases B) (auto simp: successively_append_iff)

lemma last_notin_butlast: "distinct xs \<Longrightarrow> x \<in> set (butlast xs) \<Longrightarrow> x \<noteq> last xs"
  by (induction xs) (auto split: if_splits dest: in_set_butlastD)

lemma hd_notin_tl: "distinct xs \<Longrightarrow> x \<in> set (tl xs) \<Longrightarrow> x \<noteq> hd xs"
  by (cases xs) auto

lemma unlink_ok:
  assumes ok: "bucket_ok m g xs" and b: "b \<in> set xs"
  shows "bucket_ok (m_unlink b m) g (remove1 b xs)"
proof -
  from b obtain ys zs where xs: "xs = ys @ b # zs" by (auto dest: split_list)
  have dist: "distinct xs" and bufs: "\<forall>x\<in>set xs. \<exists>i. x = Buf i"
    and succ: "successively (linkrel m) (Head g # xs @ [Head g])"
    using ok by (auto simp: bucket_ok_def)
  define A where "A = Head g # ys"
  define B where "B = zs @ [Head g]"
  define p where "p = last A"
  define n where "n = hd B"
  have AB: "Head g # xs @ [Head g] = A @ b # B" by (simp add: A_def B_def xs)
  have sA: "successively (linkrel m) A" and sB: "successively (linkrel m) B"
    and pb: "linkrel m p b" and bn: "linkrel m b n"
  proof -
    have ne: "A \<noteq> []" "B \<noteq> []" by (simp_all add: A_def B_def)
    show "successively (linkrel m) A" "successively (linkrel m) B" "linkrel m p b" "linkrel m b n"
      using succ[unfolded AB successively_split[OF ne]] by (simp_all add: p_def n_def)
  qed
  have bny: "b \<notin> set ys" "b \<notin> set zs" "b \<noteq> Head g" using dist bufs by (auto simp: xs)
  have dA: "distinct A" and dB: "distinct B" and disj: "set ys \<inter> set zs = {}"
    using dist bufs by (auto simp: A_def B_def xs)
  have pA: "p \<in> set A" unfolding p_def by (rule last_in_set) (simp add: A_def)
  have nB: "n \<in> set B" unfolding n_def by (rule hd_in_set) (simp add: B_def)
  have pnb: "p \<noteq> b" "n \<noteq> b" using pA nB bny by (auto simp: A_def B_def)
  have prevb: "prev (m b) = p" and nextb: "next (m b) = n" using pb bn by (auto simp: linkrel_def)
  define m1 where "m1 = m(p := (m p)\<lparr>next := n\<rparr>)"
  define m2 where "m2 = m1(n := (m1 n)\<lparr>prev := p\<rparr>)"
  have m': "m_unlink b m = m2"
    using pnb by (simp add: m_unlink_def Let_def prevb nextb m1_def m2_def)
  have rm: "remove1 b xs = ys @ zs" using bny by (simp add: xs remove1_append)
  have nxt2: "\<And>x. x \<noteq> p \<Longrightarrow> next (m2 x) = next (m x)" by (simp add: m2_def m1_def)
  have prv2: "\<And>x. x \<noteq> n \<Longrightarrow> prev (m2 x) = prev (m x)" by (simp add: m2_def m1_def)
  have pn: "linkrel m2 p n" by (simp add: linkrel_def m2_def m1_def)
  have sA': "successively (linkrel m2) A"
  proof (rule successively_change[OF sA])
    fix x y assume x: "x \<in> set (butlast A)" and y: "y \<in> set (tl A)" and r: "linkrel m x y"
    have "x \<noteq> p" using x dA unfolding p_def by (rule last_notin_butlast[rotated])
    moreover have "y \<noteq> n" using y nB disj bufs by (auto simp: A_def B_def xs)
    ultimately show "linkrel m2 x y" using r nxt2 prv2 by (simp add: linkrel_def)
  qed
  have sB': "successively (linkrel m2) B"
  proof (rule successively_change[OF sB])
    fix x y assume x: "x \<in> set (butlast B)" and y: "y \<in> set (tl B)" and r: "linkrel m x y"
    have "x \<noteq> p" using x pA disj bufs by (auto simp: A_def B_def xs)
    moreover have "y \<noteq> n" using y dB unfolding n_def by (rule hd_notin_tl[rotated])
    ultimately show "linkrel m2 x y" using r nxt2 prv2 by (simp add: linkrel_def)
  qed
  have "successively (linkrel m2) (A @ B)"
    using sA' sB' pn by (simp add: successively_append_iff p_def n_def)
  moreover have "Head g # remove1 b xs @ [Head g] = A @ B" by (simp add: rm A_def B_def)
  ultimately show ?thesis using dist bufs by (simp add: bucket_ok_def m' xs)
qed

lemma neighbours:
  assumes ok: "bucket_ok m g xs" and b: "b \<in> set xs"
  shows "prev (m b) \<in> insert (Head g) (set xs) - {b}" "next (m b) \<in> insert (Head g) (set xs) - {b}"
proof -
  from b obtain ys zs where xs: "xs = ys @ b # zs" by (auto dest: split_list)
  have dist: "distinct xs" and bufs: "\<forall>x\<in>set xs. \<exists>i. x = Buf i"
    and succ: "successively (linkrel m) (Head g # xs @ [Head g])"
    using ok by (auto simp: bucket_ok_def)
  define A where "A = Head g # ys"
  define B where "B = zs @ [Head g]"
  have AB: "Head g # xs @ [Head g] = A @ b # B" by (simp add: A_def B_def xs)
  have ne: "A \<noteq> []" "B \<noteq> []" by (simp_all add: A_def B_def)
  have pb: "linkrel m (last A) b" and bn: "linkrel m b (hd B)"
    using succ[unfolded AB successively_split[OF ne]] by simp_all
  have "last A \<in> set A" "hd B \<in> set B" using ne by simp_all
  moreover have "b \<notin> set A" "b \<notin> set B" using dist bufs by (auto simp: A_def B_def xs)
  moreover have "set A \<subseteq> insert (Head g) (set xs)" "set B \<subseteq> insert (Head g) (set xs)"
    by (auto simp: A_def B_def xs)
  ultimately show "prev (m b) \<in> insert (Head g) (set xs) - {b}" "next (m b) \<in> insert (Head g) (set xs) - {b}"
    using pb bn by (auto simp: linkrel_def)
qed

lemma unlink_frame:
  assumes "bucket_ok m g xs" and "b \<in> set xs" and "q \<notin> insert (Head g) (set xs) \<or> q = b"
  shows "m_unlink b m q = m q"
  using neighbours[OF assms(1,2)] assms(3) by (auto simp: m_unlink_def Let_def)

lemma unlink_fields:
  "valid (m_unlink b m q) = valid (m q)" "dev (m_unlink b m q) = dev (m q)"
  "blockno (m_unlink b m q) = blockno (m q)" "lock (m_unlink b m q) = lock (m q)"
  "refcnt (m_unlink b m q) = refcnt (m q)" "data (m_unlink b m q) = data (m q)"
  by (simp_all add: m_unlink_def Let_def)

lemma push_fields:
  "valid (m_push b h m q) = valid (m q)" "dev (m_push b h m q) = dev (m q)"
  "blockno (m_push b h m q) = blockno (m q)" "lock (m_push b h m q) = lock (m q)"
  "refcnt (m_push b h m q) = refcnt (m q)" "data (m_push b h m q) = data (m q)"
  by (simp_all add: m_push_def Let_def)

lemma first_node:
  assumes ok: "bucket_ok m h xs"
  shows "next (m (Head h)) = hd (xs @ [Head h])"
  using ok by (cases xs) (auto simp: bucket_ok_def linkrel_def)

lemma push_frame:
  assumes "bucket_ok m h xs" and "q \<notin> insert b (insert (Head h) (set xs))"
  shows "m_push b h m q = m q"
proof -
  have "next (m (Head h)) \<in> insert (Head h) (set xs)"
    unfolding first_node[OF assms(1)] by (cases xs) auto
  then show ?thesis using assms(2) by (auto simp: m_push_def Let_def)
qed

lemma push_ok:
  assumes ok: "bucket_ok m h xs" and b: "b = Buf i" "b \<notin> set xs"
  shows "bucket_ok (m_push b h m) h (b # xs)"
proof -
  have dist: "distinct xs" and bufs: "\<forall>x\<in>set xs. \<exists>i. x = Buf i"
    and succ: "successively (linkrel m) (Head h # xs @ [Head h])"
    using ok by (auto simp: bucket_ok_def)
  define B where "B = xs @ [Head h]"
  define f where "f = hd B"
  have nf: "next (m (Head h)) = f" using first_node[OF ok] by (simp add: f_def B_def)
  have sB: "successively (linkrel m) B" using succ by (simp add: B_def successively_Cons)
  have dB: "distinct B" using dist bufs by (auto simp: B_def)
  have fB: "f \<in> set B" unfolding f_def by (rule hd_in_set) (simp add: B_def)
  have bB: "b \<notin> set B" "b \<noteq> Head h" using b by (auto simp: B_def)
  then have bf: "b \<noteq> f" using fB by auto
  define m1 where "m1 = m(b := (m b)\<lparr>next := f\<rparr>)"
  define m2 where "m2 = m1(b := (m1 b)\<lparr>prev := Head h\<rparr>)"
  define m3 where "m3 = m2(f := (m2 f)\<lparr>prev := b\<rparr>)"
  define m4 where "m4 = m3(Head h := (m3 (Head h))\<lparr>next := b\<rparr>)"
  have e: "next (m2 (Head h)) = f" using bB nf by (simp add: m2_def m1_def)
  have m': "m_push b h m = m4"
    unfolding m_push_def Let_def nf m1_def[symmetric] m2_def[symmetric] e
      m3_def[symmetric] m4_def[symmetric] ..
  have nxt4: "\<And>x. x \<noteq> b \<Longrightarrow> x \<noteq> Head h \<Longrightarrow> next (m4 x) = next (m x)"
    by (simp add: m4_def m3_def m2_def m1_def)
  have prv4: "\<And>x. x \<noteq> b \<Longrightarrow> x \<noteq> f \<Longrightarrow> prev (m4 x) = prev (m x)"
    by (simp add: m4_def m3_def m2_def m1_def)
  have hb: "linkrel m4 (Head h) b" using bB bf by (simp add: linkrel_def m4_def m3_def m2_def m1_def)
  have bfl: "linkrel m4 b f" using bB bf by (simp add: linkrel_def m4_def m3_def m2_def m1_def)
  have sB': "successively (linkrel m4) B"
  proof (rule successively_change[OF sB])
    fix x y assume x: "x \<in> set (butlast B)" and y: "y \<in> set (tl B)" and r: "linkrel m x y"
    have "x \<noteq> last B" using x dB by (rule last_notin_butlast[rotated])
    then have "x \<noteq> Head h" by (simp add: B_def)
    moreover have "x \<noteq> b" using x bB by (auto dest: in_set_butlastD)
    moreover have "y \<noteq> f" using y dB unfolding f_def by (rule hd_notin_tl[rotated])
    moreover have "y \<in> set B" using y by (cases B) auto
    then have "y \<noteq> b" using bB by auto
    ultimately show "linkrel m4 x y" using r nxt4 prv4 by (simp add: linkrel_def)
  qed
  have "B \<noteq> []" by (simp add: B_def)
  then have "successively (linkrel m4) (Head h # b # B)"
    using hb bfl sB' by (cases B) (simp_all add: f_def)
  then show ?thesis unfolding bucket_ok_def m' using dist bufs b by (simp add: B_def)
qed

subsection \<open>Well linked caches\<close>

lemma HASH_less [simp]: "HASH x < NBUCKET"
  by (simp add: HASH_def NBUCKET_def)

lemma wl_bucket: "well_linked NBUF m L \<Longrightarrow> h < NBUCKET \<Longrightarrow> bucket_ok m h (L h)"
  by (simp add: well_linked_def)

lemma wl_mem: "well_linked NBUF m L \<Longrightarrow> h < NBUCKET \<Longrightarrow>
    Buf i \<in> set (L h) \<longleftrightarrow> i < NBUF \<and> HASH (blockno (m (Buf i))) = h"
  by (simp add: well_linked_def)

lemma wl_home: "well_linked NBUF m L \<Longrightarrow> i < NBUF \<Longrightarrow> Buf i \<in> set (L (HASH (blockno (m (Buf i)))))"
  by (simp add: wl_mem)

lemma wl_elem: "well_linked NBUF m L \<Longrightarrow> h < NBUCKET \<Longrightarrow> x \<in> set (L h) \<Longrightarrow>
    \<exists>i<NBUF. x = Buf i \<and> HASH (blockno (m x)) = h"
proof -
  assume w: "well_linked NBUF m L" and h: "h < NBUCKET" and x: "x \<in> set (L h)"
  from wl_bucket[OF w h] x obtain i where "x = Buf i" by (auto simp: bucket_ok_def)
  with wl_mem[OF w h, of i] x show ?thesis by auto
qed

lemma wl_disj:
  assumes w: "well_linked NBUF m L" and "k < NBUCKET" "j < NBUCKET" "k \<noteq> j"
  shows "set (L k) \<inter> set (L j) = {}"
proof (rule ccontr)
  assume "set (L k) \<inter> set (L j) \<noteq> {}"
  then obtain x where "x \<in> set (L k)" "x \<in> set (L j)" by auto
  then show False using wl_elem[OF w assms(2), of x] wl_elem[OF w assms(3), of x] assms(4) by auto
qed

lemma wl_heads: "well_linked NBUF m L \<Longrightarrow> k < NBUCKET \<Longrightarrow> Head j \<notin> set (L k)"
  using wl_elem[of NBUF m L k "Head j"] by auto

lemma wl_same_links:
  assumes w: "well_linked NBUF m L"
    and l: "\<And>p. next (m' p) = next (m p) \<and> prev (m' p) = prev (m p)"
    and k: "\<And>i. i < NBUF \<Longrightarrow> HASH (blockno (m' (Buf i))) = HASH (blockno (m (Buf i)))"
  shows "well_linked NBUF m' L"
  unfolding well_linked_def
proof (intro conjI allI impI)
  fix h assume "h < NBUCKET"
  then show "bucket_ok m' h (L h)" using wl_bucket[OF w] l by (auto intro: bucket_ok_frame)
next
  fix i h assume "h < NBUCKET"
  then show "Buf i \<in> set (L h) \<longleftrightarrow> i < NBUF \<and> HASH (blockno (m' (Buf i))) = h"
    using wl_mem[OF w, of h i] k[of i] by auto
qed

lemma wl_steal:
  assumes w: "well_linked NBUF m L" and i: "i < NBUF"
    and g: "g = HASH (blockno (m (Buf i)))" and h: "h = HASH bn" and gh: "g \<noteq> h"
    and mc: "mc = m(Buf i := (m (Buf i))\<lparr>dev := d, blockno := bn, valid := v, refcnt := r\<rparr>)"
    and L': "L' = L(g := remove1 (Buf i) (L g), h := Buf i # L h)"
  shows "well_linked NBUF (m_push (Buf i) h (m_unlink (Buf i) mc)) L'"
proof -
  define b where "b = Buf i"
  define mu where "mu = m_unlink b mc"
  define mp where "mp = m_push b h mu"
  have gN: "g < NBUCKET" and hN: "h < NBUCKET" by (simp_all add: g h)
  have bg: "b \<in> set (L g)" using wl_home[OF w i] by (simp add: g b_def)
  have bh: "b \<notin> set (L h)" using wl_mem[OF w hN, of i] gh g by (simp add: b_def)
  have okc: "\<And>k. k < NBUCKET \<Longrightarrow> bucket_ok mc k (L k)"
    by (rule bucket_ok_frame[OF wl_bucket[OF w]]) (auto simp: mc)
  have disj: "\<And>k j. k < NBUCKET \<Longrightarrow> j < NBUCKET \<Longrightarrow> k \<noteq> j \<Longrightarrow> set (L k) \<inter> set (L j) = {}"
    by (rule wl_disj[OF w])
  have heads: "\<And>k j. k < NBUCKET \<Longrightarrow> Head j \<notin> set (L k)"
    by (rule wl_heads[OF w])
  have oku: "\<And>k. k < NBUCKET \<Longrightarrow> bucket_ok mu k (if k = g then remove1 b (L g) else L k)"
  proof -
    fix k assume k: "k < NBUCKET"
    show "bucket_ok mu k (if k = g then remove1 b (L g) else L k)"
    proof (cases "k = g")
      case True
      then show ?thesis using unlink_ok[OF okc[OF gN] bg] by (simp add: mu_def)
    next
      case False
      have "bucket_ok mu k (L k)"
      proof (rule bucket_ok_frame[OF okc[OF k]])
        fix p assume "p \<in> insert (Head k) (set (L k))"
        then have "p \<notin> insert (Head g) (set (L g))" using disj[OF k gN False] heads[OF k] heads[OF gN] False by auto
        then show "next (mu p) = next (mc p) \<and> prev (mu p) = prev (mc p)"
          using unlink_frame[OF okc[OF gN] bg, of p] by (simp add: mu_def)
      qed
      then show ?thesis using False by simp
    qed
  qed
  have dg: "distinct (L g)" using wl_bucket[OF w gN] by (simp add: bucket_ok_def)
  have okp: "\<And>k. k < NBUCKET \<Longrightarrow> bucket_ok mp k (L' k)"
  proof -
    fix k assume k: "k < NBUCKET"
    show "bucket_ok mp k (L' k)"
    proof (cases "k = h")
      case True
      have "bucket_ok mu h (L h)" using oku[OF hN] gh by simp
      from push_ok[OF this b_def bh] show ?thesis using True by (simp add: mp_def L' b_def)
    next
      case False
      define xs where "xs = (if k = g then remove1 b (L g) else L k)"
      have eq: "L' k = xs" using False by (auto simp: L' xs_def b_def)
      have okh: "bucket_ok mu h (L h)" using oku[OF hN] gh by simp
      have "bucket_ok mp k xs"
      proof (rule bucket_ok_frame[OF oku[OF k, folded xs_def]])
        fix p assume p: "p \<in> insert (Head k) (set xs)"
        have pk: "p \<in> insert (Head k) (set (L k))"
          using p set_remove1_subset[of b "L g"] by (auto simp: xs_def split: if_splits)
        have "p \<noteq> b" using p dg disj[OF k gN] bg heads[OF gN] by (auto simp: xs_def b_def split: if_splits)
        moreover have "p \<noteq> Head h" using pk False heads[OF k] by auto
        moreover have "p \<notin> set (L h)" using pk disj[OF k hN False] heads[OF hN] by auto
        ultimately have "p \<notin> insert b (insert (Head h) (set (L h)))" by simp
        then show "next (mp p) = next (mu p) \<and> prev (mp p) = prev (mu p)"
          using push_frame[OF okh, of p b] by (simp add: mp_def)
      qed
      then show ?thesis by (simp add: eq)
    qed
  qed
  have blk: "\<And>j. blockno (mp (Buf j)) = (if j = i then bn else blockno (m (Buf j)))"
    by (simp add: mp_def mu_def push_fields unlink_fields mc)
  have mem: "\<And>j k. k < NBUCKET \<Longrightarrow> Buf j \<in> set (L' k) \<longleftrightarrow> j < NBUF \<and> HASH (blockno (mp (Buf j))) = k"
  proof -
    fix j k assume k: "k < NBUCKET"
    show "Buf j \<in> set (L' k) \<longleftrightarrow> j < NBUF \<and> HASH (blockno (mp (Buf j))) = k"
    proof (cases "j = i")
      case True
      have "Buf i \<in> set (L' k) \<longleftrightarrow> k = h"
        using wl_mem[OF w k, of i] dg gh g by (auto simp: L')
      then show ?thesis using True i by (auto simp: blk h)
    next
      case False
      have "Buf j \<in> set (L' k) \<longleftrightarrow> Buf j \<in> set (L k)" using False by (auto simp: L')
      then show ?thesis using wl_mem[OF w k, of j] False by (simp add: blk)
    qed
  qed
  show ?thesis using okp mem unfolding well_linked_def mp_def mu_def b_def by blast
qed

subsection \<open>binit\<close>

lemma upd_simps [simp]:
  "bcache (upd p f s) = (bcache s)(p := f (bcache s p))"
  "disk (upd p f s) = disk s" "chan (upd p f s) = chan s" "log (upd p f s) = log s"
  by (simp_all add: upd_def)

lemma logev_simps [simp]:
  "bcache (logev e s) = bcache s" "disk (logev e s) = disk s" "chan (logev e s) = chan s"
  "log (logev e s) = log s @ [(e, bcache s)]"
  by (simp_all add: logev_def)

lemma acquire_simps [simp]:
  "bcache (acquire lk s) = bcache s" "disk (acquire lk s) = disk s" "chan (acquire lk s) = chan s"
  "log (acquire lk s) = log s @ [(Acquire lk, bcache s)]"
  by (simp_all add: acquire_def)

lemma release_simps [simp]:
  "bcache (release lk s) = bcache s" "disk (release lk s) = disk s" "chan (release lk s) = chan s"
  "log (release lk s) = log s @ [(Release lk, bcache s)]"
  by (simp_all add: release_def)

lemma claim_simps [simp]:
  "bcache (claim b d bn s) = claimed b d bn (bcache s)"
  "disk (claim b d bn s) = disk s" "chan (claim b d bn s) = chan s" "log (claim b d bn s) = log s"
  by (simp_all add: claim_def claimed_def Let_def)

lemma relink_simps [simp]:
  "bcache (relink b h s) = m_push b h (m_unlink b (bcache s))"
  "disk (relink b h s) = disk s" "chan (relink b h s) = chan s" "log (relink b h s) = log s"
  by (simp_all add: relink_def m_push_def m_unlink_def Let_def)

lemma HASH_0 [simp]: "HASH 0 = 0"
  by (simp add: HASH_def)

lemma binit_heads:
  "fold binit_head [0..<n] (startup dsk) =
     \<lparr>bcache = heads_only n, disk = dsk, chan = (\<lambda>pid. None), log = []\<rparr>"
proof (induction n)
  case 0
  show ?case by (auto simp: startup_def heads_only_def split: ptr.splits)
next
  case (Suc n)
  have "heads_only (Suc n) = (heads_only n)(Head n := zero_buf\<lparr>prev := Head n, next := Head n\<rparr>)"
    by (auto simp: heads_only_def fun_eq_iff split: ptr.splits)
  moreover have "heads_only n (Head n) = zero_buf" by (simp add: heads_only_def)
  ultimately have "binit_head n \<lparr>bcache = heads_only n, disk = dsk, chan = (\<lambda>pid. None), log = []\<rparr>
     = \<lparr>bcache = heads_only (Suc n), disk = dsk, chan = (\<lambda>pid. None), log = []\<rparr>"
    by (simp add: binit_head_def initlock_def upd_def Let_def fun_eq_iff)
  then show ?case using Suc by simp
qed

lemma binit_buf_push:
  "lock (bcache s b) = None \<Longrightarrow> bcache (binit_buf b s) = m_push b 0 (bcache s)"
  by (simp add: binit_buf_def initsleeplock_def m_push_def Let_def fun_eq_iff)

lemma binit_buf_other [simp]:
  "disk (binit_buf b s) = disk s" "chan (binit_buf b s) = chan s" "log (binit_buf b s) = log s"
  by (simp_all add: binit_buf_def initsleeplock_def Let_def)

lemma zeroed_push: "zeroed m \<Longrightarrow> zeroed (m_push b h m)"
  by (simp add: zeroed_def push_fields)

lemma binit_bufs:
  fixes dsk n
  defines "s \<equiv> fold binit_buf (map Buf [0..<n]) (fold binit_head [0..<NBUCKET] (startup dsk))"
  shows "bucket_ok (bcache s) 0 (rev (map Buf [0..<n])) \<and>
         (\<forall>h<NBUCKET. h \<noteq> 0 \<longrightarrow> bucket_ok (bcache s) h []) \<and> zeroed (bcache s) \<and>
         disk s = dsk \<and> chan s = (\<lambda>pid. None) \<and> log s = []"
  unfolding s_def
proof (induction n)
  case 0
  show ?case
    by (simp add: binit_heads bucket_ok_def linkrel_def heads_only_def zeroed_def zero_buf_def NBUCKET_def
        split: ptr.splits)
next
  case (Suc n)
  define t where "t = fold binit_buf (map Buf [0..<n]) (fold binit_head [0..<NBUCKET] (startup dsk))"
  have IH: "bucket_ok (bcache t) 0 (rev (map Buf [0..<n]))"
    "\<And>h. h < NBUCKET \<Longrightarrow> h \<noteq> 0 \<Longrightarrow> bucket_ok (bcache t) h []" "zeroed (bcache t)"
    "disk t = dsk" "chan t = (\<lambda>pid. None)" "log t = []"
    using Suc by (simp_all add: t_def)
  have st: "fold binit_buf (map Buf [0..<Suc n]) (fold binit_head [0..<NBUCKET] (startup dsk)) = binit_buf (Buf n) t"
    by (simp add: t_def)
  have m: "bcache (binit_buf (Buf n) t) = m_push (Buf n) 0 (bcache t)"
    using IH(3) by (simp add: binit_buf_push zeroed_def)
  have a: "bucket_ok (m_push (Buf n) 0 (bcache t)) 0 (Buf n # rev (map Buf [0..<n]))"
    by (rule push_ok[OF IH(1)]) auto
  have b: "\<And>h. h < NBUCKET \<Longrightarrow> h \<noteq> 0 \<Longrightarrow> bucket_ok (m_push (Buf n) 0 (bcache t)) h []"
  proof -
    fix h :: nat assume h: "h < NBUCKET" "h \<noteq> 0"
    show "bucket_ok (m_push (Buf n) 0 (bcache t)) h []"
    proof (rule bucket_ok_frame[OF IH(2)[OF h]])
      fix p assume "p \<in> insert (Head h) (set [])"
      then have "p \<notin> insert (Buf n) (insert (Head 0) (set (rev (map Buf [0..<n]))))" using h by auto
      from push_frame[OF IH(1) this] show "next (m_push (Buf n) 0 (bcache t) p) = next (bcache t p) \<and>
        prev (m_push (Buf n) 0 (bcache t) p) = prev (bcache t p)" by simp
    qed
  qed
  show ?case unfolding st using a b zeroed_push[OF IH(3)] IH(4-6) by (simp add: m)
qed

lemma binit_state:
  "zeroed (bcache (binit NBUF (startup dsk)))" "disk (binit NBUF (startup dsk)) = dsk"
  "chan (binit NBUF (startup dsk)) = (\<lambda>pid. None)" "log (binit NBUF (startup dsk)) = []"
  using binit_bufs[of NBUF dsk] by (simp_all add: binit_def initlock_def Let_def)

lemma binit_wf: "well_linked NBUF (bcache (binit NBUF (startup dsk))) (boot_lists NBUF)"
proof -
  define s where "s = binit NBUF (startup dsk)"
  have s: "s = fold binit_buf (map Buf [0..<NBUF]) (fold binit_head [0..<NBUCKET] (startup dsk))"
    by (simp add: s_def binit_def initlock_def Let_def)
  have z: "\<And>p. blockno (bcache s p) = 0" using binit_bufs[of NBUF dsk] by (simp add: s zeroed_def)
  show ?thesis unfolding s_def[symmetric] well_linked_def
  proof (intro conjI allI impI)
    fix h assume "h < NBUCKET"
    then show "bucket_ok (bcache s) h (boot_lists NBUF h)"
      using binit_bufs[of NBUF dsk] by (simp add: s boot_lists_def)
  next
    fix i h assume "h < NBUCKET"
    show "Buf i \<in> set (boot_lists NBUF h) \<longleftrightarrow> i < NBUF \<and> HASH (blockno (bcache s (Buf i))) = h"
      by (auto simp: boot_lists_def z)
  qed
qed

subsection \<open>The paths of bget\<close>

lemma skipped_refl: "skipped s s"
  by (simp add: skipped_def)

lemma skipped_step: "skipped (release lk (acquire lk' s)) s1 \<Longrightarrow> skipped s s1"
  by (auto simp: skipped_def)

lemma bget_free_panic:
  "\<forall>b\<in>set bs. refcnt (bcache s b) \<noteq> 0 \<Longrightarrow> bget_free pid bs h d bn s = Panic ''bget: no buffers''"
  by (induction bs arbitrary: s) (simp_all add: Let_def)

lemma bget_free_claim:
  assumes "\<forall>x\<in>set xs. refcnt (bcache s x) \<noteq> 0" and "refcnt (bcache s b) = 0"
  shows "\<exists>s1. skipped s s1 \<and> bget_free pid (xs @ b # ys) h d bn s =
     (if HASH (blockno (bcache s b)) = h
      then acquiresleep pid b (release (Bucket h) (release Master (claim b d bn s1)))
      else acquiresleep pid b (release Master (release (Bucket h)
             (release (Bucket (HASH (blockno (bcache s b))))
               (relink b h (claim b d bn (acquire (Bucket (HASH (blockno (bcache s b)))) s1)))))))"
  using assms
proof (induction xs arbitrary: s)
  case Nil
  show ?case by (rule exI[of _ s]) (simp add: skipped_refl Let_def Nil)
next
  case (Cons x xs)
  show ?case
  proof (cases "HASH (blockno (bcache s x)) = h")
    case True
    from Cons.IH[of s] Cons.prems obtain s1 where "skipped s s1"
      "bget_free pid (xs @ b # ys) h d bn s =
     (if HASH (blockno (bcache s b)) = h
      then acquiresleep pid b (release (Bucket h) (release Master (claim b d bn s1)))
      else acquiresleep pid b (release Master (release (Bucket h)
             (release (Bucket (HASH (blockno (bcache s b))))
               (relink b h (claim b d bn (acquire (Bucket (HASH (blockno (bcache s b)))) s1)))))))"
      by auto
    then show ?thesis using True Cons.prems by (intro exI[of _ s1]) (simp add: Let_def)
  next
    case False
    define t where "t = release (Bucket (HASH (blockno (bcache s x)))) (acquire (Bucket (HASH (blockno (bcache s x)))) s)"
    have bt: "bcache t = bcache s" by (simp add: t_def)
    from Cons.IH[of t] Cons.prems obtain s1 where s1: "skipped t s1"
      "bget_free pid (xs @ b # ys) h d bn t =
     (if HASH (blockno (bcache s b)) = h
      then acquiresleep pid b (release (Bucket h) (release Master (claim b d bn s1)))
      else acquiresleep pid b (release Master (release (Bucket h)
             (release (Bucket (HASH (blockno (bcache s b))))
               (relink b h (claim b d bn (acquire (Bucket (HASH (blockno (bcache s b)))) s1)))))))"
      by (auto simp: bt)
    have "skipped s s1" using s1(1) unfolding t_def by (rule skipped_step)
    moreover have "bget_free pid ((x # xs) @ b # ys) h d bn s = bget_free pid (xs @ b # ys) h d bn t"
      using False Cons.prems by (simp add: Let_def t_def)
    ultimately show ?thesis using s1(2) by (intro exI[of _ s1]) simp
  qed
qed

lemma first_free:
  fixes r :: "nat \<Rightarrow> 32 word"
  shows "(\<forall>j<n. r j \<noteq> 0) \<or> (\<exists>i<n. r i = 0 \<and> (\<forall>j<i. r j \<noteq> 0))"
proof (induction n)
  case 0
  show ?case by simp
next
  case (Suc n)
  then show ?case
  proof
    assume a: "\<forall>j<n. r j \<noteq> 0"
    show ?thesis
    proof (cases "r n = 0")
      case True
      with a have "n < Suc n \<and> r n = 0 \<and> (\<forall>j<n. r j \<noteq> 0)" by simp
      then show ?thesis by blast
    next
      case False
      with a have "\<forall>j<Suc n. r j \<noteq> 0" by (simp add: less_Suc_eq)
      then show ?thesis ..
    qed
  next
    assume "\<exists>i<n. r i = 0 \<and> (\<forall>j<i. r j \<noteq> 0)"
    then obtain i where "i < n" "r i = 0" "\<forall>j<i. r j \<noteq> 0" by blast
    then have "i < Suc n \<and> r i = 0 \<and> (\<forall>j<i. r j \<noteq> 0)" by simp
    then show ?thesis by blast
  qed
qed

lemma pool_split: "i < n \<Longrightarrow> map Buf [0..<n] = map Buf [0..<i] @ Buf i # map Buf [Suc i..<n]"
proof -
  assume "i < n"
  then obtain k where n: "n = i + Suc k" by (auto dest: less_imp_Suc_add)
  have "[0..<i + Suc k] = [0..<i] @ [i..<i + Suc k]" by (rule upt_add_eq_append) simp
  moreover have "[i..<i + Suc k] = i # [Suc i..<i + Suc k]" by (rule upt_conv_Cons) simp
  ultimately show ?thesis unfolding n by (simp only: map_append list.map)
qed

lemma bget_cases:
  assumes w: "well_linked NBUF (bcache s) L"
  obtains
    (hit) b s' where
      "find (\<lambda>x. dev (bcache s x) = d \<and> blockno (bcache s x) = bn) (L (HASH bn)) = Some b"
      "bget NBUF pid d bn s = Some (acquiresleep pid b s')"
      "bcache s' = (bcache s)(b := (bcache s b)\<lparr>refcnt := refcnt (bcache s b) + 1\<rparr>)"
      "disk s' = disk s" "chan s' = chan s"
      "log s' = log s @ [(Acquire (Bucket (HASH bn)), bcache s), (Release (Bucket (HASH bn)), bcache s')]"
  | (same) i s' es where
      "find (\<lambda>x. dev (bcache s x) = d \<and> blockno (bcache s x) = bn) (L (HASH bn)) = None"
      "i < NBUF" "\<forall>j<i. refcnt (bcache s (Buf j)) \<noteq> 0" "refcnt (bcache s (Buf i)) = 0"
      "HASH (blockno (bcache s (Buf i))) = HASH bn"
      "bget NBUF pid d bn s = Some (acquiresleep pid (Buf i) s')"
      "bcache s' = claimed (Buf i) d bn (bcache s)"
      "disk s' = disk s" "chan s' = chan s"
      "log s' = log s @ es @ [(Release Master, bcache s'), (Release (Bucket (HASH bn)), bcache s')]"
      "\<forall>e\<in>set es. snd e = bcache s"
  | (steal) i s' es where
      "find (\<lambda>x. dev (bcache s x) = d \<and> blockno (bcache s x) = bn) (L (HASH bn)) = None"
      "i < NBUF" "\<forall>j<i. refcnt (bcache s (Buf j)) \<noteq> 0" "refcnt (bcache s (Buf i)) = 0"
      "HASH (blockno (bcache s (Buf i))) \<noteq> HASH bn"
      "bget NBUF pid d bn s = Some (acquiresleep pid (Buf i) s')"
      "bcache s' = m_push (Buf i) (HASH bn) (m_unlink (Buf i) (claimed (Buf i) d bn (bcache s)))"
      "disk s' = disk s" "chan s' = chan s"
      "log s' = log s @ es @ [(Release (Bucket (HASH (blockno (bcache s (Buf i))))), bcache s'),
                              (Release (Bucket (HASH bn)), bcache s'), (Release Master, bcache s')]"
      "\<forall>e\<in>set es. snd e = bcache s"
  | (panic)
      "find (\<lambda>x. dev (bcache s x) = d \<and> blockno (bcache s x) = bn) (L (HASH bn)) = None"
      "\<forall>j<NBUF. refcnt (bcache s (Buf j)) \<noteq> 0"
      "bget NBUF pid d bn s = Some (Panic ''bget: no buffers'')"
proof -
  define h where "h = HASH bn"
  define m where "m = bcache s"
  define P where "P = (\<lambda>x. dev (m x) = d \<and> blockno (m x) = bn)"
  have scan: "bucket_scan m h d bn (next (m (Head h))) = Some (find P (L h))"
    unfolding P_def m_def by (rule bucket_ok_scan[OF wl_bucket[OF w]]) (simp add: h_def)
  show thesis
  proof (cases "find P (L h)")
    case (Some b)
    define s' where "s' = release (Bucket h) (upd b (\<lambda>x. x\<lparr>refcnt := refcnt x + 1\<rparr>) (acquire (Bucket h) s))"
    have "bget NBUF pid d bn s = Some (acquiresleep pid b s')"
      using scan Some by (simp add: bget_def Let_def h_def m_def s'_def)
    then show thesis using Some
      by (intro hit[of b s']) (simp_all add: s'_def h_def P_def m_def)
  next
    case None
    define s0 where "s0 = acquire Master (acquire (Bucket h) s)"
    have b0: "bcache s0 = m" by (simp add: s0_def m_def)
    have bg: "bget NBUF pid d bn s = Some (bget_free pid (map Buf [0..<NBUF]) h d bn s0)"
      using scan None by (simp add: bget_def Let_def h_def m_def s0_def)
    from first_free[of NBUF "\<lambda>j. refcnt (m (Buf j))"] show thesis
    proof
      assume a: "\<forall>j<NBUF. refcnt (m (Buf j)) \<noteq> 0"
      then have "bget_free pid (map Buf [0..<NBUF]) h d bn s0 = Panic ''bget: no buffers''"
        by (intro bget_free_panic) (simp add: b0)
      then show thesis using None a bg by (intro panic) (simp_all add: P_def m_def h_def)
    next
      assume "\<exists>i<NBUF. refcnt (m (Buf i)) = 0 \<and> (\<forall>j<i. refcnt (m (Buf j)) \<noteq> 0)"
      then obtain i where i: "i < NBUF" "refcnt (m (Buf i)) = 0" "\<forall>j<i. refcnt (m (Buf j)) \<noteq> 0" by blast
      define g where "g = HASH (blockno (m (Buf i)))"
      have "\<forall>x\<in>set (map Buf [0..<i]). refcnt (bcache s0 x) \<noteq> 0" using i(3) by (simp add: b0)
      moreover have "refcnt (bcache s0 (Buf i)) = 0" using i(2) by (simp add: b0)
      ultimately obtain s1 where s1: "skipped s0 s1"
        "bget_free pid (map Buf [0..<i] @ Buf i # map Buf [Suc i..<NBUF]) h d bn s0 =
         (if g = h
          then acquiresleep pid (Buf i) (release (Bucket h) (release Master (claim (Buf i) d bn s1)))
          else acquiresleep pid (Buf i) (release Master (release (Bucket h)
                 (release (Bucket g) (relink (Buf i) h (claim (Buf i) d bn (acquire (Bucket g) s1)))))))"
        using bget_free_claim[of "map Buf [0..<i]" s0 "Buf i" pid "map Buf [Suc i..<NBUF]" h d bn]
        unfolding g_def b0 by blast
      from s1(1) obtain es1 where es0: "log s1 = log s0 @ es1" "\<forall>e\<in>set es1. snd e = bcache s0"
        unfolding skipped_def by blast
      have es1: "bcache s1 = m" "disk s1 = disk s" "chan s1 = chan s"
        "log s1 = log s0 @ es1" "\<forall>e\<in>set es1. snd e = m"
        using s1(1) es0 by (simp_all add: skipped_def b0) (simp_all add: s0_def)
      have l0: "log s0 = log s @ [(Acquire (Bucket h), m), (Acquire Master, m)]"
        by (simp add: s0_def m_def)
      show thesis
      proof (cases "g = h")
        case True
        define s' where "s' = release (Bucket h) (release Master (claim (Buf i) d bn s1))"
        have "bget NBUF pid d bn s = Some (acquiresleep pid (Buf i) s')"
          using bg s1(2) True by (simp add: pool_split[OF i(1)] s'_def)
        moreover have "log s' = log s @ ([(Acquire (Bucket h), m), (Acquire Master, m)] @ es1) @
            [(Release Master, bcache s'), (Release (Bucket h), bcache s')]"
          by (simp add: s'_def es1 l0)
        moreover have "\<forall>e\<in>set ([(Acquire (Bucket h), m), (Acquire Master, m)] @ es1). snd e = m"
          using es1(5) by simp
        ultimately show thesis using None i True
          by (intro same[of i s' "[(Acquire (Bucket h), m), (Acquire Master, m)] @ es1"])
             (simp_all add: P_def m_def[symmetric] h_def[symmetric] g_def[symmetric] s'_def es1)
      next
        case False
        define s' where "s' = release Master (release (Bucket h)
                 (release (Bucket g) (relink (Buf i) h (claim (Buf i) d bn (acquire (Bucket g) s1)))))"
        have "bget NBUF pid d bn s = Some (acquiresleep pid (Buf i) s')"
          using bg s1(2) False by (simp add: pool_split[OF i(1)] s'_def)
        moreover have "log s' = log s @ ([(Acquire (Bucket h), m), (Acquire Master, m)] @ es1 @ [(Acquire (Bucket g), m)]) @
            [(Release (Bucket g), bcache s'), (Release (Bucket h), bcache s'), (Release Master, bcache s')]"
          by (simp add: s'_def es1 l0)
        moreover have "\<forall>e\<in>set ([(Acquire (Bucket h), m), (Acquire Master, m)] @ es1 @ [(Acquire (Bucket g), m)]). snd e = m"
          using es1(5) by simp
        ultimately show thesis using None i False
          by (intro steal[of i s' "[(Acquire (Bucket h), m), (Acquire Master, m)] @ es1 @ [(Acquire (Bucket g), m)]"])
             (simp_all add: P_def m_def[symmetric] h_def[symmetric] g_def[symmetric] s'_def es1)
      qed
    qed
  qed
qed

subsection \<open>First matches\<close>

lemma find_Some_weaken:
  "find P xs = Some c \<Longrightarrow> Q c \<Longrightarrow> (\<And>x. x \<in> set xs \<Longrightarrow> Q x \<Longrightarrow> P x) \<Longrightarrow> find Q xs = Some c"
  by (induction xs) (auto split: if_splits)

lemma find_remove1:
  "find P xs = Some c \<Longrightarrow> c \<noteq> b \<Longrightarrow> find P (remove1 b xs) = Some c"
  by (induction xs) (auto split: if_splits)

lemma find_unique:
  "c \<in> set xs \<Longrightarrow> P c \<Longrightarrow> (\<And>x. x \<in> set xs \<Longrightarrow> x \<noteq> c \<Longrightarrow> \<not> P x) \<Longrightarrow> find P xs = Some c"
  by (induction xs) (auto split: if_splits)

lemma find_SomeD: "find P xs = Some c \<Longrightarrow> c \<in> set xs \<and> P c"
  by (induction xs) (auto split: if_splits)

lemma find_NoneD: "find P xs = None \<Longrightarrow> x \<in> set xs \<Longrightarrow> \<not> P x"
  by (simp add: find_None_iff)

lemma first_match_keys:
  assumes "\<And>x. dev (m' x) = dev (m x)" "\<And>x. blockno (m' x) = blockno (m x)"
  shows "first_match m' L c = first_match m L c"
  by (simp add: first_match_def assms)

lemma first_match_rekey:
  assumes w: "well_linked NBUF m L" and i: "i < NBUF" and b: "b = Buf i"
    and miss: "find (\<lambda>x. dev (m x) = d \<and> blockno (m x) = bn) (L (HASH bn)) = None"
    and kd: "\<And>x. dev (m' x) = (if x = b then d else dev (m x))"
    and kb: "\<And>x. blockno (m' x) = (if x = b then bn else blockno (m x))"
    and L': "(HASH (blockno (m b)) = HASH bn \<and> L' = L) \<or>
             (HASH (blockno (m b)) \<noteq> HASH bn \<and>
              L' = L(HASH (blockno (m b)) := remove1 b (L (HASH (blockno (m b)))), HASH bn := b # L (HASH bn)))"
    and c: "first_match m L c \<or> c = b"
  shows "first_match m' L' c"
proof (cases "c = b")
  case True
  define h where "h = HASH bn"
  have bg: "b \<in> set (L (HASH (blockno (m b))))" using wl_home[OF w i] by (simp add: b)
  have "find (\<lambda>x. dev (m' x) = d \<and> blockno (m' x) = bn) (L' h) = Some b"
  proof (cases "HASH (blockno (m b)) = HASH bn")
    case T: True
    then have "L' h = L h" using L' by (auto simp: h_def)
    moreover have "find (\<lambda>x. dev (m' x) = d \<and> blockno (m' x) = bn) (L h) = Some b"
    proof (rule find_unique)
      show "b \<in> set (L h)" using bg T by (simp add: h_def)
      show "dev (m' b) = d \<and> blockno (m' b) = bn" by (simp add: kd kb)
    next
      fix x assume "x \<in> set (L h)" "x \<noteq> b"
      then show "\<not> (dev (m' x) = d \<and> blockno (m' x) = bn)"
        using find_NoneD[OF miss, of x] by (simp add: kd kb h_def)
    qed
    ultimately show ?thesis by simp
  next
    case False
    then have "L' h = b # L h" using L' by (auto simp: h_def)
    then show ?thesis by (simp add: kd kb)
  qed
  then show ?thesis unfolding first_match_def True by (simp add: kd kb h_def)
next
  case False
  with c have fm: "first_match m L c" by simp
  define k where "k = HASH (blockno (m c))"
  define P where "P = (\<lambda>x. dev (m x) = dev (m c) \<and> blockno (m x) = blockno (m c))"
  define P' where "P' = (\<lambda>x. dev (m' x) = dev (m' c) \<and> blockno (m' x) = blockno (m' c))"
  have f: "find P (L k) = Some c" using fm by (simp add: first_match_def P_def k_def)
  then have ck: "c \<in> set (L k)" "P c" using find_SomeD by fastforce+
  have nb: "\<not> P' b"
  proof
    assume "P' b"
    then have key: "dev (m c) = d" "blockno (m c) = bn" using False by (simp_all add: P'_def kd kb)
    then have "k = HASH bn" by (simp add: k_def)
    then show False using find_NoneD[OF miss, of c] ck(1) key by simp
  qed
  have P'P: "\<And>x. P' x \<Longrightarrow> P x" using nb False
    by (auto simp: P'_def P_def kd kb split: if_splits)
  have P'c: "P' c" by (simp add: P'_def)
  have base: "find P' (L k) = Some c"
    by (rule find_Some_weaken[where P = P and Q = P', OF f P'c]) (rule P'P)
  have "find P' (L' k) = Some c"
    using L'
  proof (elim disjE conjE)
    assume "L' = L" then show ?thesis using base by simp
  next
    assume gh: "HASH (blockno (m b)) \<noteq> HASH bn"
      and l: "L' = L(HASH (blockno (m b)) := remove1 b (L (HASH (blockno (m b)))), HASH bn := b # L (HASH bn))"
    consider "k = HASH bn" | "k \<noteq> HASH bn" "k = HASH (blockno (m b))" | "k \<noteq> HASH bn" "k \<noteq> HASH (blockno (m b))"
      by blast
    then show ?thesis
    proof cases
      case 1
      then have "L' k = b # L k" by (simp add: l)
      then show ?thesis using nb base by simp
    next
      case 2
      then have "L' k = remove1 b (L k)" by (simp add: l)
      then show ?thesis using find_remove1[OF base False] by simp
    next
      case 3
      then have "L' k = L k" by (simp add: l)
      then show ?thesis using base by simp
    qed
  qed
  moreover have "HASH (blockno (m' c)) = k" using False by (simp add: kb k_def)
  ultimately show ?thesis by (simp add: first_match_def P'_def)
qed

subsection \<open>The invariant of runs\<close>

lemma wl_fields:
  assumes "well_linked NBUF m L" and "\<And>p. next (m' p) = next (m p)" and "\<And>p. prev (m' p) = prev (m p)"
    and "\<And>p. blockno (m' p) = blockno (m p)"
  shows "well_linked NBUF m' L"
  by (rule wl_same_links[OF assms(1)]) (simp_all add: assms)

lemma at_release_append:
  "log s' = log s @ es \<Longrightarrow>
     set (at_release s') = set (at_release s) \<union> snd ` {e \<in> set es. is_release (fst e)}"
  by (auto simp: at_release_def)

lemma bget_struct:
  assumes w: "well_linked NBUF (bcache s) L"
  obtains
    (panic) "bget NBUF pid d bn s = Some (Panic ''bget: no buffers'')"
  | (ok) b s0 L' es i where
      "bget NBUF pid d bn s = Some (acquiresleep pid b s0)" "well_linked NBUF (bcache s0) L'"
      "\<And>c. first_match (bcache s) L c \<Longrightarrow> first_match (bcache s0) L' c"
      "first_match (bcache s0) L' b" "i < NBUF" "b = Buf i"
      "disk s0 = disk s" "chan s0 = chan s"
      "\<And>p. valid (bcache s0 p) \<Longrightarrow> valid (bcache s p)"
      "log s0 = log s @ es" "\<And>e. e \<in> set es \<Longrightarrow> snd e = bcache s \<or> snd e = bcache s0"
  using w
proof (cases rule: bget_cases[where d = d and bn = bn and pid = pid])
  case (hit b s')
  define h where "h = HASH bn"
  have bin: "b \<in> set (L h)" and key: "dev (bcache s b) = d" "blockno (bcache s b) = bn"
    using find_SomeD[OF hit(1)] by (simp_all add: h_def)
  from wl_elem[OF w _ bin] obtain i where i: "i < NBUF" "b = Buf i" by (auto simp: h_def)
  have w': "well_linked NBUF (bcache s') L" by (rule wl_fields[OF w]) (simp_all add: hit(3))
  have fm: "\<And>c. first_match (bcache s') L c = first_match (bcache s) L c"
    by (rule first_match_keys) (simp_all add: hit(3))
  have fb: "first_match (bcache s) L b" using hit(1) by (simp add: first_match_def key)
  show ?thesis
  proof (rule ok[of b s' L i "[(Acquire (Bucket (HASH bn)), bcache s), (Release (Bucket (HASH bn)), bcache s')]"])
    show "bget NBUF pid d bn s = Some (acquiresleep pid b s')" by (rule hit(2))
    show "well_linked NBUF (bcache s') L" by (rule w')
    show "\<And>c. first_match (bcache s) L c \<Longrightarrow> first_match (bcache s') L c" by (simp add: fm)
    show "first_match (bcache s') L b" using fb by (simp add: fm)
    show "i < NBUF" "b = Buf i" by (rule i)+
    show "disk s' = disk s" "chan s' = chan s" by (rule hit)+
    show "\<And>p. valid (bcache s' p) \<Longrightarrow> valid (bcache s p)" by (simp add: hit(3) split: if_splits)
    show "log s' = log s @ [(Acquire (Bucket (HASH bn)), bcache s), (Release (Bucket (HASH bn)), bcache s')]"
      by (rule hit(6))
    show "\<And>e. e \<in> set [(Acquire (Bucket (HASH bn)), bcache s), (Release (Bucket (HASH bn)), bcache s')]
       \<Longrightarrow> snd e = bcache s \<or> snd e = bcache s'" by auto
  qed
next
  case (same i s' es)
  define b where "b = Buf i"
  have kd: "\<And>x. dev (bcache s' x) = (if x = b then d else dev (bcache s x))"
    and kb: "\<And>x. blockno (bcache s' x) = (if x = b then bn else blockno (bcache s x))"
    by (simp_all add: same(7) claimed_def b_def)
  have w': "well_linked NBUF (bcache s') L"
    by (rule wl_same_links[OF w]) (auto simp: same(7) claimed_def same(5))
  have fm: "\<And>c. first_match (bcache s) L c \<or> c = b \<Longrightarrow> first_match (bcache s') L c"
    by (rule first_match_rekey[OF w same(2) b_def same(1) kd kb]) (simp_all add: same(5) b_def)
  show ?thesis
  proof (rule ok[of b s' L i "es @ [(Release Master, bcache s'), (Release (Bucket (HASH bn)), bcache s')]"])
    show "bget NBUF pid d bn s = Some (acquiresleep pid b s')" unfolding b_def by (rule same(6))
    show "well_linked NBUF (bcache s') L" by (rule w')
    show "\<And>c. first_match (bcache s) L c \<Longrightarrow> first_match (bcache s') L c" by (simp add: fm)
    show "first_match (bcache s') L b" by (simp add: fm)
    show "i < NBUF" "b = Buf i" by (rule same(2), rule b_def)
    show "disk s' = disk s" "chan s' = chan s" by (rule same)+
    show "\<And>p. valid (bcache s' p) \<Longrightarrow> valid (bcache s p)"
      by (simp add: same(7) claimed_def split: if_splits)
    show "log s' = log s @ es @ [(Release Master, bcache s'), (Release (Bucket (HASH bn)), bcache s')]"
      by (rule same(10))
    show "\<And>e. e \<in> set (es @ [(Release Master, bcache s'), (Release (Bucket (HASH bn)), bcache s')])
       \<Longrightarrow> snd e = bcache s \<or> snd e = bcache s'" using same(11) by auto
  qed
next
  case (steal i s' es)
  define b where "b = Buf i"
  define L' where "L' = L(HASH (blockno (bcache s b)) := remove1 b (L (HASH (blockno (bcache s b)))),
                          HASH bn := b # L (HASH bn))"
  have kd: "\<And>x. dev (bcache s' x) = (if x = b then d else dev (bcache s x))"
    and kb: "\<And>x. blockno (bcache s' x) = (if x = b then bn else blockno (bcache s x))"
    by (simp_all add: steal(7) claimed_def b_def push_fields unlink_fields)
  have w': "well_linked NBUF (bcache s') L'"
    unfolding steal(7) claimed_def
    by (rule wl_steal[OF w steal(2) refl refl steal(5) refl]) (simp add: L'_def b_def)
  have fm: "\<And>c. first_match (bcache s) L c \<or> c = b \<Longrightarrow> first_match (bcache s') L' c"
    by (rule first_match_rekey[OF w steal(2) b_def steal(1) kd kb]) (simp_all add: steal(5)[folded b_def] L'_def)
  define tl3 where "tl3 = [(Release (Bucket (HASH (blockno (bcache s (Buf i))))), bcache s'),
                              (Release (Bucket (HASH bn)), bcache s'), (Release Master, bcache s')]"
  show ?thesis
  proof (rule ok[of b s' L' i "es @ tl3"])
    show "bget NBUF pid d bn s = Some (acquiresleep pid b s')" unfolding b_def by (rule steal(6))
    show "well_linked NBUF (bcache s') L'" by (rule w')
    show "\<And>c. first_match (bcache s) L c \<Longrightarrow> first_match (bcache s') L' c" by (simp add: fm)
    show "first_match (bcache s') L' b" by (simp add: fm)
    show "i < NBUF" "b = Buf i" by (rule steal(2), rule b_def)
    show "disk s' = disk s" "chan s' = chan s" by (rule steal)+
    show "\<And>p. valid (bcache s' p) \<Longrightarrow> valid (bcache s p)"
      by (simp add: steal(7) claimed_def push_fields unlink_fields split: if_splits)
    show "log s' = log s @ es @ tl3" unfolding tl3_def by (rule steal(10))
    show "\<And>e. e \<in> set (es @ tl3) \<Longrightarrow> snd e = bcache s \<or> snd e = bcache s'"
      using steal(11) by (auto simp: tl3_def)
  qed
next
  case panic
  then show ?thesis by (intro that(1))
qed

lemma acquiresleep_Return:
  assumes "acquiresleep pid b s = Return s' b'"
  shows "b' = b" "lock (bcache s b) = None"
    "bcache s' = (bcache s)(b := (bcache s b)\<lparr>lock := Some pid\<rparr>)"
    "disk s' = disk s" "chan s' = (chan s)(pid := None)"
    "log s' = log s @ [(AcquireSleep b, bcache s')]"
  using assms by (auto simp: acquiresleep_def split: if_splits)

lemma acquiresleep_Sleeping:
  assumes "acquiresleep pid b s = Sleeping s' b'"
  shows "b' = b" "lock (bcache s b) \<noteq> None" "bcache s' = bcache s"
    "disk s' = disk s" "chan s' = (chan s)(pid := Some b)"
    "log s' = log s @ [(Sleep b, bcache s)]"
  using assms by (auto simp: acquiresleep_def split: if_splits)

lemma bread_tail_simps:
  "bcache (bread_tail b s) =
     (if valid (bcache s b) then bcache s
      else (bcache s)(b := (bcache s b)\<lparr>data := disk s (dev (bcache s b), blockno (bcache s b)), valid := True\<rparr>))"
  "disk (bread_tail b s) = disk s" "chan (bread_tail b s) = chan s"
  "log (bread_tail b s) =
     (if valid (bcache s b) then log s
      else log s @ [(DiskRW b False,
             (bcache s)(b := (bcache s b)\<lparr>data := disk s (dev (bcache s b), blockno (bcache s b))\<rparr>))])"
  by (simp_all add: bread_tail_def virtio_disk_rw_def Let_def)

lemma after_bget_Return:
  "after_bget r = Return s' b \<Longrightarrow> \<exists>s1. r = Return s1 b \<and> s' = bread_tail b s1"
  by (cases r) auto

lemma after_bget_Sleeping: "after_bget r = Sleeping s' b \<Longrightarrow> r = Sleeping s' b"
  by (cases r) auto

text \<open>What a sleep-lock acquisition followed by the rest of bread keeps.\<close>

lemma finish_inv:
  assumes w: "well_linked NBUF (bcache s0) L" and f: "firsts NBUF s0 L" and fb: "first_match (bcache s0) L b"
    and rel: "\<forall>m\<in>set (at_release s0). \<exists>L. well_linked NBUF m L"
    and r: "after_bget (acquiresleep pid b s0) = Return s' b' \<or> after_bget (acquiresleep pid b s0) = Sleeping s' b'"
  shows "run_inv NBUF s'"
  using r
proof
  assume "after_bget (acquiresleep pid b s0) = Return s' b'"
  then obtain s1 where s1: "acquiresleep pid b s0 = Return s1 b'" "s' = bread_tail b' s1"
    by (auto dest: after_bget_Return)
  note a = acquiresleep_Return[OF s1(1)]
  have m': "\<And>p. next (bcache s' p) = next (bcache s0 p)" "\<And>p. prev (bcache s' p) = prev (bcache s0 p)"
    "\<And>p. blockno (bcache s' p) = blockno (bcache s0 p)" "\<And>p. dev (bcache s' p) = dev (bcache s0 p)"
    "\<And>p. valid (bcache s' p) \<Longrightarrow> p \<noteq> b \<Longrightarrow> valid (bcache s0 p)"
    by (auto simp: s1(2) bread_tail_simps a split: if_splits)
  have w': "well_linked NBUF (bcache s') L" by (rule wl_fields[OF w m'(1,2,3)])
  have fm: "\<And>c. first_match (bcache s') L c = first_match (bcache s0) L c"
    by (rule first_match_keys[OF m'(4) m'(3)])
  have ch: "chan s' = (chan s0)(pid := None)" by (simp add: s1(2) bread_tail_simps a)
  have f': "firsts NBUF s' L"
    unfolding firsts_def fm using f fb m'(5) by (auto simp: firsts_def ch)
  have "\<exists>es. log s' = log s0 @ es \<and> (\<forall>e\<in>set es. \<not> is_release (fst e))"
    by (auto simp: s1(2) bread_tail_simps a)
  then obtain es where es: "log s' = log s0 @ es" "\<forall>e\<in>set es. \<not> is_release (fst e)" by blast
  have e: "snd ` {e \<in> set es. is_release (fst e)} = {}" using es(2) by auto
  have "set (at_release s') = set (at_release s0)" unfolding at_release_append[OF es(1)] e by simp
  then show ?thesis using w' f' rel by (auto simp: run_inv_def)
next
  assume "after_bget (acquiresleep pid b s0) = Sleeping s' b'"
  then have "acquiresleep pid b s0 = Sleeping s' b'" by (rule after_bget_Sleeping)
  note a = acquiresleep_Sleeping[OF this]
  have f': "firsts NBUF s' L" using f fb by (auto simp: firsts_def a)
  have "set (at_release s') = set (at_release s0)" by (simp add: at_release_def a)
  then show ?thesis using w f' rel by (auto simp: run_inv_def a)
qed

lemma bread_inv:
  assumes i: "run_inv NBUF s"
    and r: "bread NBUF pid d bn s = Some (Return s' b') \<or> bread NBUF pid d bn s = Some (Sleeping s' b')"
  shows "run_inv NBUF s'"
proof -
  from i obtain L where w: "well_linked NBUF (bcache s) L" and f: "firsts NBUF s L"
    and rel: "\<forall>m\<in>set (at_release s). \<exists>L. well_linked NBUF m L" by (auto simp: run_inv_def)
  have np: "bget NBUF pid d bn s \<noteq> Some (Panic ''bget: no buffers'')"
  proof
    assume "bget NBUF pid d bn s = Some (Panic ''bget: no buffers'')"
    then have "bread NBUF pid d bn s = Some (Panic ''bget: no buffers'')" by (simp add: bread_def)
    with r show False by simp
  qed
  from w obtain b s0 L' es where
    g: "bget NBUF pid d bn s = Some (acquiresleep pid b s0)" and w0: "well_linked NBUF (bcache s0) L'"
    and mono: "\<And>c. first_match (bcache s) L c \<Longrightarrow> first_match (bcache s0) L' c"
    and fb: "first_match (bcache s0) L' b"
    and same: "disk s0 = disk s" "chan s0 = chan s" "\<And>p. valid (bcache s0 p) \<Longrightarrow> valid (bcache s p)"
    and lg: "log s0 = log s @ es" "\<And>e. e \<in> set es \<Longrightarrow> snd e = bcache s \<or> snd e = bcache s0"
  proof (cases rule: bget_struct[where pid = pid and d = d and bn = bn])
    case panic
    then show ?thesis using np by simp
  next
    case (ok b s0 L' es i)
    then show ?thesis by (intro that[of b s0 L' es])
  qed
  have f0: "firsts NBUF s0 L'" unfolding firsts_def
  proof (intro conjI allI impI)
    fix i assume i: "i < NBUF" "valid (bcache s0 (Buf i))"
    show "first_match (bcache s0) L' (Buf i)"
    proof (rule mono)
      have "valid (bcache s (Buf i))" by (rule same(3)) (rule i(2))
      with f i(1) show "first_match (bcache s) L (Buf i)" by (simp add: firsts_def)
    qed
  next
    fix pid b assume c: "chan s0 pid = Some b"
    show "first_match (bcache s0) L' b"
    proof (rule mono)
      have "chan s pid = Some b" using c by (simp add: same(2))
      with f show "first_match (bcache s) L b" by (simp add: firsts_def)
    qed
  qed
  have rel0: "\<forall>m\<in>set (at_release s0). \<exists>L. well_linked NBUF m L"
  proof
    fix m assume "m \<in> set (at_release s0)"
    then have "m \<in> set (at_release s) \<or> m \<in> snd ` {e \<in> set es. is_release (fst e)}"
      unfolding at_release_append[OF lg(1)] by simp
    then show "\<exists>L. well_linked NBUF m L"
    proof
      assume "m \<in> set (at_release s)"
      then show ?thesis using rel by simp
    next
      assume "m \<in> snd ` {e \<in> set es. is_release (fst e)}"
      then obtain e where "e \<in> set es" "m = snd e" by auto
      then have "m = bcache s \<or> m = bcache s0" using lg(2)[of e] by simp
      then show ?thesis using w w0 by auto
    qed
  qed
  have "after_bget (acquiresleep pid b s0) = Return s' b' \<or> after_bget (acquiresleep pid b s0) = Sleeping s' b'"
    using r g by (simp add: bread_def)
  then show ?thesis by (rule finish_inv[OF w0 f0 fb rel0])
qed

lemma wakeup_inv:
  assumes i: "run_inv NBUF s" and c: "chan s pid = Some b"
    and r: "bread_wakeup pid b s = Return s' b' \<or> bread_wakeup pid b s = Sleeping s' b'"
  shows "run_inv NBUF s'"
proof -
  from i obtain L where w: "well_linked NBUF (bcache s) L" and f: "firsts NBUF s L"
    and rel: "\<forall>m\<in>set (at_release s). \<exists>L. well_linked NBUF m L" by (auto simp: run_inv_def)
  have fb: "first_match (bcache s) L b" using f c by (auto simp: firsts_def)
  show ?thesis by (rule finish_inv[OF w f fb rel]) (use r in \<open>simp add: bread_wakeup_def\<close>)
qed

text \<open>Calls that change only refcnt, lock, data or the disk.\<close>

lemma quiet_inv:
  assumes i: "run_inv NBUF s"
    and m': "\<And>p. next (bcache s' p) = next (bcache s p)" "\<And>p. prev (bcache s' p) = prev (bcache s p)"
      "\<And>p. blockno (bcache s' p) = blockno (bcache s p)" "\<And>p. dev (bcache s' p) = dev (bcache s p)"
      "\<And>p. valid (bcache s' p) = valid (bcache s p)"
    and ch: "chan s' = chan s"
    and lg: "log s' = log s @ es" "\<forall>e\<in>set es. is_release (fst e) \<longrightarrow> snd e = bcache s'"
  shows "run_inv NBUF s'"
proof -
  from i obtain L where w: "well_linked NBUF (bcache s) L" and f: "firsts NBUF s L"
    and rel: "\<forall>m\<in>set (at_release s). \<exists>L. well_linked NBUF m L" by (auto simp: run_inv_def)
  have w': "well_linked NBUF (bcache s') L" by (rule wl_fields[OF w m'(1,2,3)])
  have fm: "\<And>c. first_match (bcache s') L c = first_match (bcache s) L c"
    by (rule first_match_keys[OF m'(4) m'(3)])
  have f': "firsts NBUF s' L" using f by (simp add: firsts_def fm m'(5) ch)
  have "\<forall>m\<in>set (at_release s'). \<exists>L. well_linked NBUF m L"
  proof
    fix m assume "m \<in> set (at_release s')"
    then have "m \<in> set (at_release s) \<or> m \<in> snd ` {e \<in> set es. is_release (fst e)}"
      unfolding at_release_append[OF lg(1)] by simp
    then show "\<exists>L. well_linked NBUF m L"
    proof
      assume "m \<in> set (at_release s)"
      then show ?thesis using rel by simp
    next
      assume "m \<in> snd ` {e \<in> set es. is_release (fst e)}"
      then obtain e where "e \<in> set es" "is_release (fst e)" "m = snd e" by auto
      then have "m = bcache s'" using lg(2) by simp
      then show ?thesis using w' by auto
    qed
  qed
  then show ?thesis using w' f' by (auto simp: run_inv_def)
qed

lemma bwrite_inv: "run_inv NBUF s \<Longrightarrow> bwrite pid b s = Return s' () \<Longrightarrow> run_inv NBUF s'"
  by (erule quiet_inv[where es = "[(DiskRW b True, bcache s)]"])
     (auto simp: bwrite_def virtio_disk_rw_def Let_def split: if_splits)

lemma brelse_inv: "run_inv NBUF s \<Longrightarrow> brelse pid b s = Return s' () \<Longrightarrow> run_inv NBUF s'"
  by (erule quiet_inv[where es = "[(ReleaseSleep b, (bcache s)(b := (bcache s b)\<lparr>lock := None\<rparr>)),
          (Acquire (Bucket (HASH (blockno (bcache s b)))), (bcache s)(b := (bcache s b)\<lparr>lock := None\<rparr>)),
          (Release (Bucket (HASH (blockno (bcache s b)))), bcache s')]"])
     (auto simp: brelse_def releasesleep_def Let_def split: if_splits)

lemma bpin_inv: "run_inv NBUF s \<Longrightarrow> run_inv NBUF (bpin b s)"
  by (erule quiet_inv[where es = "[(Acquire (Bucket (HASH (blockno (bcache s b)))), bcache s),
          (Release (Bucket (HASH (blockno (bcache s b)))), bcache (bpin b s))]"])
     (auto simp: bpin_def Let_def)

lemma bunpin_inv: "run_inv NBUF s \<Longrightarrow> run_inv NBUF (bunpin b s)"
  by (erule quiet_inv[where es = "[(Acquire (Bucket (HASH (blockno (bcache s b)))), bcache s),
          (Release (Bucket (HASH (blockno (bcache s b)))), bcache (bunpin b s))]"])
     (auto simp: bunpin_def Let_def)

lemma boot_inv: "run_inv NBUF (binit NBUF (startup dsk))"
proof -
  have "firsts NBUF (binit NBUF (startup dsk)) (boot_lists NBUF)"
    using binit_state[of NBUF dsk] by (simp add: firsts_def zeroed_def)
  then show ?thesis using binit_wf[of NBUF dsk] binit_state(4)[of NBUF dsk]
    by (auto simp: run_inv_def at_release_def)
qed

lemma exec_inv: "exec NBUF hist s \<Longrightarrow> run_inv NBUF s"
proof (induction rule: exec.induct)
  case (ex_boot dsk)
  show ?case by (rule boot_inv)
next
  case (ex_read hist s pid d bn s' b)
  then show ?case by (auto intro: bread_inv)
next
  case (ex_read_sleep hist s pid d bn s' b)
  then show ?case by (auto intro: bread_inv)
next
  case (ex_wakeup hist s pid b s' b')
  then show ?case by (auto intro: wakeup_inv)
next
  case (ex_wakeup_sleep hist s pid b s' b')
  then show ?case by (auto intro: wakeup_inv)
next
  case (ex_write hist s pid i s')
  then show ?case by (auto intro: bwrite_inv)
next
  case (ex_release hist s pid i s')
  then show ?case by (auto intro: brelse_inv)
next
  case (ex_pin hist s i)
  then show ?case by (auto intro: bpin_inv)
next
  case (ex_unpin hist s i)
  then show ?case by (auto intro: bunpin_inv)
qed

subsection \<open>Bucket membership and uniqueness\<close>

lemma returned_SomeD: "returned r = Some v \<Longrightarrow> \<exists>s. r = Some (Return s v)"
  by (cases r rule: returned.cases) auto


lemma exec_ok: "exec NBUF hist s \<Longrightarrow> bcache_ok NBUF (bcache s)"
  by (drule exec_inv) (auto simp: run_inv_def bcache_ok_def)

lemma boot_ok: "bcache_ok NBUF (bcache (binit NBUF (startup dsk)))"
  using binit_wf[of NBUF dsk] by (auto simp: bcache_ok_def)

lemma returned_the: "returned r = Some v \<Longrightarrow> r = Some (Return (the (result_state r)) v)"
  by (cases r rule: returned.cases) auto

lemma exec_boot: "exec NBUF [] (boot NBUF)"
  unfolding boot_def by (rule exec.ex_boot)

lemma exec_after_read: "exec 2 [Bread 7 0 0 (Buf 1)] (after_read 2)"
proof -
  have "returned (bread 2 7 0 0 (boot 2)) = Some (Buf 1)" by code_simp
  then have "bread 2 7 0 0 (boot 2) = Some (Return (after_read 2) (Buf 1))"
    unfolding after_read_def by (rule returned_the)
  moreover have "chan (boot 2) 7 = None" by (simp add: boot_def binit_state)
  ultimately show ?thesis using exec_boot[of 2] by (intro exec.ex_read)
qed

lemma exec_after_release: "exec 2 [Brelse 7 (Buf 1), Bread 7 0 0 (Buf 1)] after_release"
proof -
  have "returned (Some (brelse 7 (Buf 1) (after_read 2))) = Some ()" by code_simp
  then have "Some (brelse 7 (Buf 1) (after_read 2)) = Some (Return after_release ())"
    unfolding after_release_def by (rule returned_the)
  then have "brelse 7 (Buf 1) (after_read 2) = Return after_release ()" by (simp only: option.inject)
  moreover have "chan (after_read 2) 7 = None" by code_simp
  moreover have "(1::nat) < 2" by simp
  ultimately show ?thesis using exec_after_read by (intro exec.ex_release)
qed



lemma valid_unique:
  assumes e: "exec NBUF hist s" and i: "i < NBUF" "valid (bcache s (Buf i))"
    and j: "j < NBUF" "valid (bcache s (Buf j))"
    and k: "dev (bcache s (Buf i)) = dev (bcache s (Buf j))" "blockno (bcache s (Buf i)) = blockno (bcache s (Buf j))"
  shows "i = j"
proof -
  from exec_inv[OF e] obtain L where f: "firsts NBUF s L" by (auto simp: run_inv_def)
  have "first_match (bcache s) L (Buf i)" "first_match (bcache s) L (Buf j)"
    using f i j by (simp_all add: firsts_def)
  then have "Some (Buf i) = Some (Buf j)" unfolding first_match_def k by simp
  then show ?thesis by simp
qed

text \<open>
  C1: in every state reached from \<^verbatim>\<open>binit\<close> by calls of \<^verbatim>\<open>bread\<close>, \<^verbatim>\<open>bwrite\<close>,
  \<^verbatim>\<open>brelse\<close>, \<^verbatim>\<open>bpin\<close> and \<^verbatim>\<open>bunpin\<close>, for every device \<open>d\<close> and block number
  \<open>bn\<close>, at most one buffer of the pool is valid with \<open>dev = d\<close> and \<open>blockno = bn\<close>.
\<close>

theorem one_valid_slot_per_block:
  "exec NBUF hist s \<Longrightarrow>
     card {i. i < NBUF \<and> valid (bcache s (Buf i)) \<and> dev (bcache s (Buf i)) = d \<and>
              blockno (bcache s (Buf i)) = bn} \<le> 1"
proof -
  assume e: "exec NBUF hist s"
  define A where "A = {i. i < NBUF \<and> valid (bcache s (Buf i)) \<and> dev (bcache s (Buf i)) = d \<and>
              blockno (bcache s (Buf i)) = bn}"
  have fin: "finite A" by (simp add: A_def)
  have "\<forall>a\<in>A. \<forall>b\<in>A. a = b" using valid_unique[OF e] by (auto simp: A_def)
  then have "card A \<le> Suc 0" using fin by (simp add: card_le_Suc0_iff_eq)
  then show ?thesis by (simp add: A_def)
qed

theorem one_valid_slot_per_block_witness:
  "\<exists>s. exec 2 [Bread 7 0 1 (Buf 0)] s \<and> valid (bcache s (Buf 0)) \<and>
     card {i. i < 2 \<and> valid (bcache s (Buf i)) \<and> dev (bcache s (Buf i)) = 0 \<and>
              blockno (bcache s (Buf i)) = 1} \<le> 1"
proof -
  have "returned (bread 2 7 0 1 (binit 2 (startup blank_disk))) = Some (Buf 0)" by code_simp
  then obtain s where s: "bread 2 7 0 1 (binit 2 (startup blank_disk)) = Some (Return s (Buf 0))"
    by (auto dest: returned_SomeD)
  have v: "valid (bcache s (Buf 0))"
    using s by (auto simp: bread_def bread_tail_simps dest!: after_bget_Return)
  have "chan (binit 2 (startup blank_disk)) 7 = None" by (simp add: binit_state)
  with exec.ex_boot[of 2 blank_disk] have e: "exec 2 [Bread 7 0 1 (Buf 0)] s"
    using s by (rule exec.ex_read)
  from one_valid_slot_per_block[OF e, of 0 1] e v show ?thesis by blast
qed

subsection \<open>Misses\<close>

lemma miss_iff:
  assumes w: "well_linked NBUF m L"
  shows "find (\<lambda>x. dev (m x) = d \<and> blockno (m x) = bn) (L (HASH bn)) = None \<longleftrightarrow>
         (\<forall>j<NBUF. \<not> (dev (m (Buf j)) = d \<and> blockno (m (Buf j)) = bn))"
proof
  assume n: "find (\<lambda>x. dev (m x) = d \<and> blockno (m x) = bn) (L (HASH bn)) = None"
  show "\<forall>j<NBUF. \<not> (dev (m (Buf j)) = d \<and> blockno (m (Buf j)) = bn)"
  proof (intro allI impI notI)
    fix j assume j: "j < NBUF" and k: "dev (m (Buf j)) = d \<and> blockno (m (Buf j)) = bn"
    then have "Buf j \<in> set (L (HASH bn))" using wl_home[OF w j] by simp
    from find_NoneD[OF n this] k show False by simp
  qed
next
  assume a: "\<forall>j<NBUF. \<not> (dev (m (Buf j)) = d \<and> blockno (m (Buf j)) = bn)"
  have "\<And>x. x \<in> set (L (HASH bn)) \<Longrightarrow> \<not> (dev (m x) = d \<and> blockno (m x) = bn)"
  proof -
    fix x assume "x \<in> set (L (HASH bn))"
    from wl_elem[OF w _ this] obtain j where "j < NBUF" "x = Buf j" by auto
    then show "\<not> (dev (m x) = d \<and> blockno (m x) = bn)" using a by simp
  qed
  then show "find (\<lambda>x. dev (m x) = d \<and> blockno (m x) = bn) (L (HASH bn)) = None"
    by (simp add: find_None_iff)
qed

lemma acquiresleep_slept:
  "acquiresleep pid b s =
     (if lock (bcache s b) = None then Return (slept pid b s) b else Sleeping (slept pid b s) b)"
  by (simp add: acquiresleep_def slept_def)

lemma slept_fields:
  "dev (bcache (slept pid b s) p) = dev (bcache s p)"
  "blockno (bcache (slept pid b s) p) = blockno (bcache s p)"
  "valid (bcache (slept pid b s) p) = valid (bcache s p)"
  "refcnt (bcache (slept pid b s) p) = refcnt (bcache s p)"
  "data (bcache (slept pid b s) p) = data (bcache s p)"
  "next (bcache (slept pid b s) p) = next (bcache s p)"
  "prev (bcache (slept pid b s) p) = prev (bcache s p)"
  "p \<noteq> b \<Longrightarrow> bcache (slept pid b s) p = bcache s p"
  "disk (slept pid b s) = disk s"
  by (simp_all add: slept_def)

text \<open>
  C3: in a well linked cache where no buffer of the pool has the requested device and
  block number and buffer \<open>i\<close> is the first of the pool, in index order, with
  \<open>refcnt = 0\<close>, \<^verbatim>\<open>bget\<close> claims buffer \<open>i\<close>: it sets its \<open>dev\<close> and \<open>blockno\<close> to the
  request, \<open>valid\<close> to false and \<open>refcnt\<close> to 1, and returns it (after sleeping on its
  sleep lock if that is held). Every other buffer of the pool, so every buffer with
  \<open>refcnt\<close> other than 0, keeps its identity, flag, count, lock and payload.
\<close>

theorem bget_claims_first_free:
  assumes ok: "bcache_ok NBUF (bcache s)"
    and miss: "\<forall>j<NBUF. \<not> (dev (bcache s (Buf j)) = d \<and> blockno (bcache s (Buf j)) = bn)"
    and i: "i < NBUF" "refcnt (bcache s (Buf i)) = 0" "\<forall>j<i. refcnt (bcache s (Buf j)) \<noteq> 0"
  shows "\<exists>s'. bget NBUF pid d bn s =
           Some (if lock (bcache s (Buf i)) = None then Return s' (Buf i) else Sleeping s' (Buf i)) \<and>
         dev (bcache s' (Buf i)) = d \<and> blockno (bcache s' (Buf i)) = bn \<and>
         \<not> valid (bcache s' (Buf i)) \<and> refcnt (bcache s' (Buf i)) = 1 \<and>
         (\<forall>j<NBUF. j \<noteq> i \<longrightarrow>
            dev (bcache s' (Buf j)) = dev (bcache s (Buf j)) \<and>
            blockno (bcache s' (Buf j)) = blockno (bcache s (Buf j)) \<and>
            valid (bcache s' (Buf j)) = valid (bcache s (Buf j)) \<and>
            refcnt (bcache s' (Buf j)) = refcnt (bcache s (Buf j)) \<and>
            lock (bcache s' (Buf j)) = lock (bcache s (Buf j)) \<and>
            data (bcache s' (Buf j)) = data (bcache s (Buf j)))"
proof -
  from ok obtain L where w: "well_linked NBUF (bcache s) L" by (auto simp: bcache_ok_def)
  have none: "find (\<lambda>x. dev (bcache s x) = d \<and> blockno (bcache s x) = bn) (L (HASH bn)) = None"
    using miss by (simp add: miss_iff[OF w])
  have first: "\<And>k. k < NBUF \<Longrightarrow> refcnt (bcache s (Buf k)) = 0 \<Longrightarrow> \<forall>j<k. refcnt (bcache s (Buf j)) \<noteq> 0 \<Longrightarrow> k = i"
  proof -
    fix k assume "k < NBUF" "refcnt (bcache s (Buf k)) = 0" "\<forall>j<k. refcnt (bcache s (Buf j)) \<noteq> 0"
    then show "k = i" using i by (meson linorder_neqE_nat)
  qed
  from w show ?thesis
  proof (cases rule: bget_cases[where d = d and bn = bn and pid = pid])
    case (hit b s')
    then show ?thesis using none by simp
  next
    case (same k s0 es)
    have k: "k = i" using same(2,3,4) by (intro first)
    have lk: "lock (bcache s0 (Buf i)) = lock (bcache s (Buf i))" by (simp add: same(7) claimed_def)
    show ?thesis
      by (rule exI[of _ "slept pid (Buf i) s0"])
         (simp add: same(6)[unfolded k] acquiresleep_slept lk slept_fields same(7)[unfolded k] claimed_def)
  next
    case (steal k s0 es)
    have k: "k = i" using steal(2,3,4) by (intro first)
    have lk: "lock (bcache s0 (Buf i)) = lock (bcache s (Buf i))"
      by (simp add: steal(7) claimed_def push_fields unlink_fields)
    show ?thesis
      by (rule exI[of _ "slept pid (Buf i) s0"])
         (simp add: steal(6)[unfolded k] acquiresleep_slept lk slept_fields steal(7)[unfolded k] claimed_def
            push_fields unlink_fields)
  next
    case panic
    then show ?thesis using i by simp
  qed
qed

theorem bget_claims_first_free_witness:
  "\<exists>s'. bget 2 7 0 1 (binit 2 (startup blank_disk)) = Some (Return s' (Buf 0)) \<and>
      dev (bcache s' (Buf 0)) = 0 \<and> blockno (bcache s' (Buf 0)) = 1 \<and>
      \<not> valid (bcache s' (Buf 0)) \<and> refcnt (bcache s' (Buf 0)) = 1 \<and>
      blockno (bcache s' (Buf 1)) = 0 \<and> refcnt (bcache s' (Buf 1)) = 0"
proof -
  define s where "s = binit 2 (startup blank_disk)"
  have z: "zeroed (bcache s)" unfolding s_def by (rule binit_state)
  have ok: "bcache_ok 2 (bcache s)" unfolding s_def by (rule boot_ok)
  have miss: "\<forall>j<2. \<not> (dev (bcache s (Buf j)) = 0 \<and> blockno (bcache s (Buf j)) = 1)"
    using z by (simp add: zeroed_def)
  have i: "(0::nat) < 2" "refcnt (bcache s (Buf 0)) = 0" "\<forall>j<0. refcnt (bcache s (Buf j)) \<noteq> 0"
    using z by (simp_all add: zeroed_def)
  have l: "lock (bcache s (Buf 0)) = None" using z by (simp add: zeroed_def)
  from bget_claims_first_free[OF ok miss i, of 7] obtain s' where
    "bget 2 7 0 1 s = Some (Return s' (Buf 0))"
    "dev (bcache s' (Buf 0)) = 0 \<and> blockno (bcache s' (Buf 0)) = 1 \<and>
         \<not> valid (bcache s' (Buf 0)) \<and> refcnt (bcache s' (Buf 0)) = 1"
    "\<forall>j<2. j \<noteq> 0 \<longrightarrow> blockno (bcache s' (Buf j)) = blockno (bcache s (Buf j)) \<and>
            refcnt (bcache s' (Buf j)) = refcnt (bcache s (Buf j))"
    unfolding l by auto
  moreover from this(3) have "blockno (bcache s' (Buf 1)) = 0 \<and> refcnt (bcache s' (Buf 1)) = 0"
    using z by (simp add: zeroed_def)
  ultimately show ?thesis unfolding s_def by blast
qed

text \<open>
  C4: in a well linked cache \<^verbatim>\<open>bget\<close> panics exactly when no buffer of the pool has
  \<open>refcnt = 0\<close> and none has the requested device and block number; its only panic is
  "bget: no buffers". A count is unsigned, so this is: it panics exactly when every
  count is positive and no buffer has the requested device and block number.
\<close>

theorem bget_panics_iff_exhausted:
  assumes ok: "bcache_ok NBUF (bcache s)"
  shows "(bget NBUF pid d bn s = Some (Panic ''bget: no buffers'') \<longleftrightarrow>
            (\<forall>j<NBUF. refcnt (bcache s (Buf j)) \<noteq> 0) \<and>
            (\<forall>j<NBUF. \<not> (dev (bcache s (Buf j)) = d \<and> blockno (bcache s (Buf j)) = bn))) \<and>
         (\<forall>msg. bget NBUF pid d bn s = Some (Panic msg) \<longrightarrow> msg = ''bget: no buffers'') \<and>
         (bget NBUF pid d bn s = Some (Panic ''bget: no buffers'') \<longleftrightarrow>
            (\<forall>j<NBUF. 0 < refcnt (bcache s (Buf j))) \<and>
            (\<forall>j<NBUF. \<not> (dev (bcache s (Buf j)) = d \<and> blockno (bcache s (Buf j)) = bn)))"
proof -
  from ok obtain L where w: "well_linked NBUF (bcache s) L" by (auto simp: bcache_ok_def)
  note mi = miss_iff[OF w, of d bn]
  have main: "(bget NBUF pid d bn s = Some (Panic ''bget: no buffers'') \<longleftrightarrow>
            (\<forall>j<NBUF. refcnt (bcache s (Buf j)) \<noteq> 0) \<and>
            (\<forall>j<NBUF. \<not> (dev (bcache s (Buf j)) = d \<and> blockno (bcache s (Buf j)) = bn))) \<and>
         (\<forall>msg. bget NBUF pid d bn s = Some (Panic msg) \<longrightarrow> msg = ''bget: no buffers'')"
    using w
  proof (cases rule: bget_cases[where d = d and bn = bn and pid = pid])
    case (hit b s')
    then show ?thesis using mi by (simp add: acquiresleep_slept)
  next
    case (same k s0 es)
    then show ?thesis by (auto simp: acquiresleep_slept)
  next
    case (steal k s0 es)
    then show ?thesis by (auto simp: acquiresleep_slept)
  next
    case panic
    then show ?thesis using mi by simp
  qed
  have "(\<forall>j<NBUF. 0 < refcnt (bcache s (Buf j))) = (\<forall>j<NBUF. refcnt (bcache s (Buf j)) \<noteq> 0)"
    by (simp add: word_gt_0)
  with main show ?thesis by simp
qed

theorem bget_panics_iff_exhausted_witness:
  "bcache_ok 1 (bcache (after_read 1)) \<and> refcnt (bcache (after_read 1) (Buf 0)) = 1 \<and>
   blockno (bcache (after_read 1) (Buf 0)) = 0 \<and>
   bget 1 8 0 1 (after_read 1) = Some (Panic ''bget: no buffers'')"
proof -
  have "returned (bread 1 7 0 0 (boot 1)) = Some (Buf 0)" by code_simp
  then have "bread 1 7 0 0 (boot 1) = Some (Return (after_read 1) (Buf 0))"
    unfolding after_read_def by (rule returned_the)
  moreover have "chan (boot 1) 7 = None" by (simp add: boot_def binit_state)
  ultimately have "exec 1 [Bread 7 0 0 (Buf 0)] (after_read 1)" using exec_boot[of 1] by (intro exec.ex_read)
  then have ok: "bcache_ok 1 (bcache (after_read 1))" by (rule exec_ok)
  have r: "refcnt (bcache (after_read 1) (Buf 0)) = 1" by code_simp
  have k: "blockno (bcache (after_read 1) (Buf 0)) = 0" by code_simp
  have b: "\<forall>j<1. 0 < refcnt (bcache (after_read 1) (Buf j))" using r by simp
  have c: "\<forall>j<1. \<not> (dev (bcache (after_read 1) (Buf j)) = 0 \<and> blockno (bcache (after_read 1) (Buf j)) = 1)"
    using k by simp
  from bget_panics_iff_exhausted[OF ok, of 8 0 1] b c
  have "bget 1 8 0 1 (after_read 1) = Some (Panic ''bget: no buffers'')" by blast
  then show ?thesis using ok r k by blast
qed

subsection \<open>Where a claimed buffer is linked\<close>

lemma wl_claimed_same:
  "well_linked NBUF m L \<Longrightarrow> HASH (blockno (m (Buf i))) = HASH bn \<Longrightarrow>
     well_linked NBUF (claimed (Buf i) d bn m) L"
  by (erule wl_same_links) (auto simp: claimed_def)

lemma wl_stolen:
  assumes "well_linked NBUF m L" "i < NBUF" "HASH (blockno (m (Buf i))) \<noteq> HASH bn"
  shows "well_linked NBUF (m_push (Buf i) (HASH bn) (m_unlink (Buf i) (claimed (Buf i) d bn m)))
     (L(HASH (blockno (m (Buf i))) := remove1 (Buf i) (L (HASH (blockno (m (Buf i))))),
        HASH bn := Buf i # L (HASH bn)))"
  unfolding claimed_def by (rule wl_steal[OF assms(1,2) refl refl assms(3) refl refl])

lemma wl_slept: "well_linked NBUF (bcache s) L \<Longrightarrow> well_linked NBUF (bcache (slept pid b s)) L"
  by (erule wl_fields) (simp_all add: slept_fields)

lemma wl_list: "well_linked NBUF m L \<Longrightarrow> h < NBUCKET \<Longrightarrow> bucket_list m h = Some (L h)"
  by (rule bucket_ok_list) (rule wl_bucket)

lemma log_slept:
  "log (slept pid b s) = log s @
     [(if lock (bcache s b) = None then AcquireSleep b else Sleep b, bcache (slept pid b s))]"
  by (simp add: slept_def)

text \<open>
  C7, in the form that holds of the code: on a miss that claims the free buffer \<open>i\<close>, if the buffer comes from
  another bucket it is the first of the list of its new bucket in the memory logged at
  the three releases that end the call (of the other bucket's lock, of the home bucket's
  lock and of the master lock) and in the final state, with the old list behind it; if it
  was already in the home bucket, that list is unchanged: the buffer stays where it was.
\<close>

theorem claimed_slot_position:
  assumes ok: "bcache_ok NBUF (bcache s)"
    and miss: "\<forall>j<NBUF. \<not> (dev (bcache s (Buf j)) = d \<and> blockno (bcache s (Buf j)) = bn)"
    and i: "i < NBUF" "refcnt (bcache s (Buf i)) = 0" "\<forall>j<i. refcnt (bcache s (Buf j)) \<noteq> 0"
  shows "\<exists>s' m' es xs.
     bget NBUF pid d bn s =
       Some (if lock (bcache s (Buf i)) = None then Return s' (Buf i) else Sleeping s' (Buf i)) \<and>
     bucket_list (bcache s) (HASH bn) = Some xs \<and> (\<forall>e\<in>set es. snd e = bcache s) \<and>
     (if HASH (blockno (bcache s (Buf i))) = HASH bn
      then log s' = log s @ es @
             [(Release Master, m'), (Release (Bucket (HASH bn)), m'),
              (if lock (bcache s (Buf i)) = None then AcquireSleep (Buf i) else Sleep (Buf i), bcache s')] \<and>
           Buf i \<in> set xs \<and>
           bucket_list m' (HASH bn) = Some xs \<and> bucket_list (bcache s') (HASH bn) = Some xs
      else log s' = log s @ es @
             [(Release (Bucket (HASH (blockno (bcache s (Buf i))))), m'),
              (Release (Bucket (HASH bn)), m'), (Release Master, m'),
              (if lock (bcache s (Buf i)) = None then AcquireSleep (Buf i) else Sleep (Buf i), bcache s')] \<and>
           Buf i \<notin> set xs \<and>
           bucket_list m' (HASH bn) = Some (Buf i # xs) \<and>
           bucket_list (bcache s') (HASH bn) = Some (Buf i # xs))"
proof -
  from ok obtain L where w: "well_linked NBUF (bcache s) L" by (auto simp: bcache_ok_def)
  have none: "find (\<lambda>x. dev (bcache s x) = d \<and> blockno (bcache s x) = bn) (L (HASH bn)) = None"
    using miss by (simp add: miss_iff[OF w])
  have first: "\<And>k. k < NBUF \<Longrightarrow> refcnt (bcache s (Buf k)) = 0 \<Longrightarrow> \<forall>j<k. refcnt (bcache s (Buf j)) \<noteq> 0 \<Longrightarrow> k = i"
  proof -
    fix k assume "k < NBUF" "refcnt (bcache s (Buf k)) = 0" "\<forall>j<k. refcnt (bcache s (Buf j)) \<noteq> 0"
    then show "k = i" using i by (meson linorder_neqE_nat)
  qed
  have l0: "bucket_list (bcache s) (HASH bn) = Some (L (HASH bn))" by (rule wl_list[OF w]) simp
  from w show ?thesis
  proof (cases rule: bget_cases[where d = d and bn = bn and pid = pid])
    case (hit b s')
    then show ?thesis using none by simp
  next
    case (same k s0 es)
    have k: "k = i" using same(2,3,4) by (intro first)
    note s = same[unfolded k]
    have lk: "lock (bcache s0 (Buf i)) = lock (bcache s (Buf i))" by (simp add: s(7) claimed_def)
    have w0: "well_linked NBUF (bcache s0) L" unfolding s(7) by (rule wl_claimed_same[OF w s(5)])
    have l1: "bucket_list (bcache s0) (HASH bn) = Some (L (HASH bn))" by (rule wl_list[OF w0]) simp
    have l2: "bucket_list (bcache (slept pid (Buf i) s0)) (HASH bn) = Some (L (HASH bn))"
      by (rule wl_list[OF wl_slept[OF w0]]) simp
    have mem: "Buf i \<in> set (L (HASH bn))" using wl_home[OF w i(1)] s(5) by simp
    show ?thesis
      apply (rule exI[of _ "slept pid (Buf i) s0"])
      apply (rule exI[of _ "bcache s0"])
      apply (rule exI[of _ es])
      apply (rule exI[of _ "L (HASH bn)"])
      apply (simp add: s(6) acquiresleep_slept lk l0 l1 l2 s(5) s(11) mem log_slept s(10))
      done
  next
    case (steal k s0 es)
    have k: "k = i" using steal(2,3,4) by (intro first)
    note s = steal[unfolded k]
    define L' where "L' = L(HASH (blockno (bcache s (Buf i))) := remove1 (Buf i) (L (HASH (blockno (bcache s (Buf i))))),
        HASH bn := Buf i # L (HASH bn))"
    have lk: "lock (bcache s0 (Buf i)) = lock (bcache s (Buf i))"
      by (simp add: s(7) claimed_def push_fields unlink_fields)
    have w0: "well_linked NBUF (bcache s0) L'" unfolding s(7) L'_def by (rule wl_stolen[OF w i(1) s(5)])
    have L'h: "L' (HASH bn) = Buf i # L (HASH bn)" by (simp add: L'_def)
    have l1: "bucket_list (bcache s0) (HASH bn) = Some (Buf i # L (HASH bn))"
      using wl_list[OF w0, of "HASH bn"] by (simp add: L'h)
    have l2: "bucket_list (bcache (slept pid (Buf i) s0)) (HASH bn) = Some (Buf i # L (HASH bn))"
      using wl_list[OF wl_slept[OF w0], of "HASH bn"] by (simp add: L'h)
    have mem: "Buf i \<notin> set (L (HASH bn))" using wl_mem[OF w, of "HASH bn" i] s(5) by simp
    show ?thesis
      apply (rule exI[of _ "slept pid (Buf i) s0"])
      apply (rule exI[of _ "bcache s0"])
      apply (rule exI[of _ es])
      apply (rule exI[of _ "L (HASH bn)"])
      apply (simp add: s(6) acquiresleep_slept lk l0 l1 l2 s(5) s(11) mem log_slept s(10))
      done
  next
    case panic
    then show ?thesis using i by simp
  qed
qed

theorem claimed_slot_position_witness:
  "bcache_ok 2 (bcache (boot 2)) \<and> HASH (blockno (bcache (boot 2) (Buf 0))) \<noteq> HASH 1 \<and>
   (\<exists>s' m'. bget 2 7 0 1 (boot 2) = Some (Return s' (Buf 0)) \<and>
      bucket_list m' (HASH 1) = Some [Buf 0] \<and> bucket_list (bcache s') (HASH 1) = Some [Buf 0] \<and>
      (Release Master, m') \<in> set (log s'))"
proof -
  define s where "s = boot 2"
  have z: "zeroed (bcache s)" unfolding s_def boot_def by (rule binit_state)
  have ok: "bcache_ok 2 (bcache s)" unfolding s_def boot_def by (rule boot_ok)
  have miss: "\<forall>j<2. \<not> (dev (bcache s (Buf j)) = 0 \<and> blockno (bcache s (Buf j)) = 1)"
    using z by (simp add: zeroed_def)
  have i: "(0::nat) < 2" "refcnt (bcache s (Buf 0)) = 0" "\<forall>j<0. refcnt (bcache s (Buf j)) \<noteq> 0"
    using z by (simp_all add: zeroed_def)
  have l: "lock (bcache s (Buf 0)) = None" using z by (simp add: zeroed_def)
  have h: "HASH (blockno (bcache s (Buf 0))) \<noteq> HASH 1" using z by (simp add: zeroed_def HASH_def NBUCKET_def)
  have e: "bucket_list (bcache s) (HASH 1) = Some []" unfolding s_def by code_simp
  from claimed_slot_position[OF ok miss i, of 7] obtain s' m' es xs where
    "bget 2 7 0 1 s = Some (Return s' (Buf 0))" "bucket_list (bcache s) (HASH 1) = Some xs"
    "log s' = log s @ es @
             [(Release (Bucket (HASH (blockno (bcache s (Buf 0))))), m'),
              (Release (Bucket (HASH 1)), m'), (Release Master, m'),
              (AcquireSleep (Buf 0), bcache s')]"
    "bucket_list m' (HASH 1) = Some (Buf 0 # xs)" "bucket_list (bcache s') (HASH 1) = Some (Buf 0 # xs)"
    unfolding l using h by auto
  then show ?thesis using ok h e unfolding s_def by auto
qed

text \<open>
  As the claim states it, the claimed buffer would be at the front also when it comes
  from the home bucket. After \<^verbatim>\<open>binit\<close> with two buffers, \<^verbatim>\<open>bget(0, 13)\<close> misses in
  bucket 0 and claims buffer 0 there; at both releases and at the end the list of bucket
  0 is still buffer 1, buffer 0.
\<close>

theorem claimed_slot_position_counterexample:
  "HASH 13 = 0 \<and> bucket_list (bcache (boot 2)) 0 = Some [Buf 1, Buf 0] \<and>
   returned (bget 2 7 0 13 (boot 2)) = Some (Buf 0) \<and>
   release_lists (result_state (bget 2 7 0 13 (boot 2))) 0 = [Some [Buf 1, Buf 0], Some [Buf 1, Buf 0]] \<and>
   final_list (result_state (bget 2 7 0 13 (boot 2))) 0 = Some [Buf 1, Buf 0]"
  by code_simp

subsection \<open>Hits\<close>

lemma bread_wakeup_cases:
  "(lock (bcache t b) \<noteq> None \<longrightarrow>
          (\<exists>t'. bread_wakeup pid b t = Sleeping t' b \<and> bcache t' = bcache t \<and> disk t' = disk t \<and>
             chan t' pid = Some b \<and> log t' = log t @ [(Sleep b, bcache t)])) \<and>
       (lock (bcache t b) = None \<and> valid (bcache t b) \<longrightarrow>
          (\<exists>t'. bread_wakeup pid b t = Return t' b \<and>
             bcache t' = (bcache t)(b := (bcache t b)\<lparr>lock := Some pid\<rparr>) \<and> disk t' = disk t \<and>
             log t' = log t @ [(AcquireSleep b, bcache t')])) \<and>
       (lock (bcache t b) = None \<and> \<not> valid (bcache t b) \<longrightarrow>
          (\<exists>t'. bread_wakeup pid b t = Return t' b \<and>
             bcache t' = (bcache t)(b := (bcache t b)
               \<lparr>lock := Some pid, data := disk t (dev (bcache t b), blockno (bcache t b)),
                valid := True\<rparr>) \<and>
             disk t' = disk t \<and>
             log t' = log t @
               [(AcquireSleep b, (bcache t)(b := (bcache t b)\<lparr>lock := Some pid\<rparr>)),
                (DiskRW b False, (bcache t)(b := (bcache t b)
                   \<lparr>lock := Some pid, data := disk t (dev (bcache t b), blockno (bcache t b))\<rparr>))]))"
  by (simp add: bread_wakeup_def acquiresleep_slept slept_def bread_tail_simps)

text \<open>
  C5, in the form that holds of the code: in a well linked cache, if \<open>b\<close> is the first
  buffer of the list of the home bucket with the requested device and block number,
  \<^verbatim>\<open>bread\<close> takes \<open>b\<close> and adds one to its \<open>refcnt\<close>. No buffer changes its \<open>dev\<close>,
  \<open>blockno\<close>, \<open>next\<close> or \<open>prev\<close>, no other buffer changes at all, and every bucket list
  is the same. If the sleep lock of \<open>b\<close> is free the call returns \<open>b\<close>: with no disk
  transfer and \<open>valid\<close> and the payload as they were if \<open>b\<close> is valid, after one transfer
  in that sets \<open>valid\<close> if it is not. If the lock is held the caller is left asleep on
  \<open>b\<close>. In any later state, woken while the lock is held it sleeps again; woken
  with the lock free it takes the lock and returns \<open>b\<close>, with no transfer if \<open>b\<close> is then
  valid and after one transfer in that sets \<open>valid\<close> if it is not.
\<close>

theorem bread_hit:
  assumes ok: "bcache_ok NBUF (bcache s)"
    and xs: "bucket_list (bcache s) (HASH bn) = Some xs"
    and b: "find (\<lambda>x. dev (bcache s x) = d \<and> blockno (bcache s x) = bn) xs = Some b"
  shows "(\<exists>s' m1.
     bread NBUF pid d bn s = Some (if lock (bcache s b) = None then Return s' b else Sleeping s' b) \<and>
     m1 = (bcache s)(b := (bcache s b)\<lparr>refcnt := refcnt (bcache s b) + 1\<rparr>) \<and>
     refcnt (bcache s' b) = refcnt (bcache s b) + 1 \<and>
     (\<forall>p. dev (bcache s' p) = dev (bcache s p) \<and> blockno (bcache s' p) = blockno (bcache s p) \<and>
          next (bcache s' p) = next (bcache s p) \<and> prev (bcache s' p) = prev (bcache s p)) \<and>
     (\<forall>p. p \<noteq> b \<longrightarrow> bcache s' p = bcache s p) \<and>
     (\<forall>h<NBUCKET. bucket_list (bcache s') h = bucket_list (bcache s) h) \<and>
     (lock (bcache s b) \<noteq> None \<longrightarrow>
        bcache s' = m1 \<and> disk s' = disk s \<and> chan s' pid = Some b \<and>
        log s' = log s @ [(Acquire (Bucket (HASH bn)), bcache s), (Release (Bucket (HASH bn)), m1),
                          (Sleep b, m1)]) \<and>
     (lock (bcache s b) = None \<and> valid (bcache s b) \<longrightarrow>
        bcache s' = m1(b := (m1 b)\<lparr>lock := Some pid\<rparr>) \<and> disk s' = disk s \<and>
        log s' = log s @ [(Acquire (Bucket (HASH bn)), bcache s), (Release (Bucket (HASH bn)), m1),
                          (AcquireSleep b, bcache s')]) \<and>
     (lock (bcache s b) = None \<and> \<not> valid (bcache s b) \<longrightarrow>
        bcache s' = m1(b := (m1 b)\<lparr>lock := Some pid, data := disk s (d, bn), valid := True\<rparr>) \<and>
        disk s' = disk s \<and>
        log s' = log s @ [(Acquire (Bucket (HASH bn)), bcache s), (Release (Bucket (HASH bn)), m1),
                          (AcquireSleep b, m1(b := (m1 b)\<lparr>lock := Some pid\<rparr>)),
                          (DiskRW b False, m1(b := (m1 b)\<lparr>lock := Some pid, data := disk s (d, bn)\<rparr>))])) \<and>
    (\<forall>t.
       (lock (bcache t b) \<noteq> None \<longrightarrow>
          (\<exists>t'. bread_wakeup pid b t = Sleeping t' b \<and> bcache t' = bcache t \<and> disk t' = disk t \<and>
             chan t' pid = Some b \<and> log t' = log t @ [(Sleep b, bcache t)])) \<and>
       (lock (bcache t b) = None \<and> valid (bcache t b) \<longrightarrow>
          (\<exists>t'. bread_wakeup pid b t = Return t' b \<and>
             bcache t' = (bcache t)(b := (bcache t b)\<lparr>lock := Some pid\<rparr>) \<and> disk t' = disk t \<and>
             log t' = log t @ [(AcquireSleep b, bcache t')])) \<and>
       (lock (bcache t b) = None \<and> \<not> valid (bcache t b) \<longrightarrow>
          (\<exists>t'. bread_wakeup pid b t = Return t' b \<and>
             bcache t' = (bcache t)(b := (bcache t b)
               \<lparr>lock := Some pid, data := disk t (dev (bcache t b), blockno (bcache t b)),
                valid := True\<rparr>) \<and>
             disk t' = disk t \<and>
             log t' = log t @
               [(AcquireSleep b, (bcache t)(b := (bcache t b)\<lparr>lock := Some pid\<rparr>)),
                (DiskRW b False, (bcache t)(b := (bcache t b)
                   \<lparr>lock := Some pid, data := disk t (dev (bcache t b), blockno (bcache t b))\<rparr>))])))"
proof -
  from ok obtain L where w: "well_linked NBUF (bcache s) L" by (auto simp: bcache_ok_def)
  have "bucket_list (bcache s) (HASH bn) = Some (L (HASH bn))" by (rule wl_list[OF w]) simp
  with xs have xsL: "xs = L (HASH bn)" by simp
  from w show ?thesis
  proof (cases rule: bget_cases[where d = d and bn = bn and pid = pid])
    case (hit b' s0)
    have bb: "b' = b" using hit(1) b by (simp add: xsL)
    note h = hit[unfolded bb]
    have key: "dev (bcache s b) = d" "blockno (bcache s b) = bn"
      using find_SomeD[OF b] by simp_all
    define m1 where "m1 = (bcache s)(b := (bcache s b)\<lparr>refcnt := refcnt (bcache s b) + 1\<rparr>)"
    define s' where "s' = (if lock (bcache s b) = None then bread_tail b (slept pid b s0) else slept pid b s0)"
    have lk: "lock (bcache s0 b) = lock (bcache s b)" by (simp add: h(3))
    have br: "bread NBUF pid d bn s = Some (if lock (bcache s b) = None then Return s' b else Sleeping s' b)"
      by (simp add: bread_def h(2) acquiresleep_slept lk s'_def)
    have m0: "bcache s0 = m1" by (simp add: h(3) m1_def)
    have f1: "lock (m1 b) = lock (bcache s b)" "valid (m1 b) = valid (bcache s b)"
      "dev (m1 b) = d" "blockno (m1 b) = bn"
      by (simp_all add: m1_def key)
    have ptrs: "\<And>p. dev (bcache s' p) = dev (bcache s p) \<and> blockno (bcache s' p) = blockno (bcache s p) \<and>
          next (bcache s' p) = next (bcache s p) \<and> prev (bcache s' p) = prev (bcache s p)"
      by (simp add: s'_def bread_tail_simps slept_fields h(3))
    have w': "well_linked NBUF (bcache s') L" by (rule wl_fields[OF w]) (simp_all add: ptrs)
    have lists: "\<forall>h<NBUCKET. bucket_list (bcache s') h = bucket_list (bcache s) h"
      by (simp add: wl_list[OF w] wl_list[OF w'])
    have others: "\<forall>p. p \<noteq> b \<longrightarrow> bcache s' p = bcache s p"
      by (simp add: s'_def bread_tail_simps slept_fields h(3))
    have rc: "refcnt (bcache s' b) = refcnt (bcache s b) + 1"
      by (simp add: s'_def bread_tail_simps slept_fields h(3))
    have c1: "lock (bcache s b) \<noteq> None \<longrightarrow>
        bcache s' = m1 \<and> disk s' = disk s \<and> chan s' pid = Some b \<and>
        log s' = log s @ [(Acquire (Bucket (HASH bn)), bcache s), (Release (Bucket (HASH bn)), m1),
                          (Sleep b, m1)]"
      by (simp add: s'_def slept_def lk m0 h f1)
    have c2: "lock (bcache s b) = None \<and> valid (bcache s b) \<longrightarrow>
        bcache s' = m1(b := (m1 b)\<lparr>lock := Some pid\<rparr>) \<and> disk s' = disk s \<and>
        log s' = log s @ [(Acquire (Bucket (HASH bn)), bcache s), (Release (Bucket (HASH bn)), m1),
                          (AcquireSleep b, bcache s')]"
      by (simp add: s'_def slept_def lk m0 h bread_tail_simps f1)
    have c3: "lock (bcache s b) = None \<and> \<not> valid (bcache s b) \<longrightarrow>
        bcache s' = m1(b := (m1 b)\<lparr>lock := Some pid, data := disk s (d, bn), valid := True\<rparr>) \<and>
        disk s' = disk s \<and>
        log s' = log s @ [(Acquire (Bucket (HASH bn)), bcache s), (Release (Bucket (HASH bn)), m1),
                          (AcquireSleep b, m1(b := (m1 b)\<lparr>lock := Some pid\<rparr>)),
                          (DiskRW b False, m1(b := (m1 b)\<lparr>lock := Some pid, data := disk s (d, bn)\<rparr>))]"
      by (simp add: s'_def slept_def lk m0 h bread_tail_simps f1)
    show ?thesis
      apply (rule conjI)
       apply (rule exI[of _ s'])
       apply (rule exI[of _ m1])
       apply (intro conjI)
              apply (rule br)
             apply (rule m1_def)
            apply (rule rc)
           apply (rule allI, rule ptrs)
          apply (rule others)
         apply (rule lists)
        apply (rule c1)
       apply (rule c2)
      apply (rule c3)
      apply (rule allI)
      apply (rule bread_wakeup_cases)
      done
  next
    case (same k s0 es)
    then show ?thesis using b by (simp add: xsL)
  next
    case (steal k s0 es)
    then show ?thesis using b by (simp add: xsL)
  next
    case panic
    then show ?thesis using b by (simp add: xsL)
  qed
qed

theorem bread_hit_witness:
  "bcache_ok 2 (bcache after_release) \<and>
   bucket_list (bcache after_release) (HASH 0) = Some [Buf 1, Buf 0] \<and>
   lock (bcache after_release (Buf 1)) = None \<and> valid (bcache after_release (Buf 1)) \<and>
   (\<exists>s'. bread 2 8 0 0 after_release = Some (Return s' (Buf 1)) \<and>
      refcnt (bcache s' (Buf 1)) = 1 \<and> bcache s' (Buf 0) = bcache after_release (Buf 0) \<and>
      disk s' = disk after_release) \<and>
   (\<exists>t'. bread_wakeup 8 (Buf 1) after_release = Return t' (Buf 1) \<and>
      disk t' = disk after_release \<and> valid (bcache t' (Buf 1)))"
proof -
  define s where "s = after_release"
  have ok: "bcache_ok 2 (bcache s)" unfolding s_def by (rule exec_ok[OF exec_after_release])
  have xs: "bucket_list (bcache s) (HASH 0) = Some [Buf 1, Buf 0]" unfolding s_def by code_simp
  have b: "find (\<lambda>x. dev (bcache s x) = 0 \<and> blockno (bcache s x) = 0) [Buf 1, Buf 0] = Some (Buf 1)"
    unfolding s_def by code_simp
  have l: "lock (bcache s (Buf 1)) = None" unfolding s_def by code_simp
  have v: "valid (bcache s (Buf 1))" unfolding s_def by code_simp
  have r: "refcnt (bcache s (Buf 1)) = 0" unfolding s_def by code_simp
  from bread_hit[OF ok xs b, of 8, THEN conjunct1] obtain s' where
    "bread 2 8 0 0 s = Some (Return s' (Buf 1))" "refcnt (bcache s' (Buf 1)) = refcnt (bcache s (Buf 1)) + 1"
    "\<forall>p. p \<noteq> Buf 1 \<longrightarrow> bcache s' p = bcache s p" "disk s' = disk s"
    using l v by auto
  moreover from bread_hit[OF ok xs b, of 8, THEN conjunct2, THEN spec, of s] obtain t' where
    "bread_wakeup 8 (Buf 1) s = Return t' (Buf 1)" "disk t' = disk s"
    "bcache t' = (bcache s)(Buf 1 := (bcache s (Buf 1))\<lparr>lock := Some 8\<rparr>)"
    using l v by auto
  moreover from this(3) v have "valid (bcache t' (Buf 1))" by simp
  ultimately show ?thesis using ok xs l v r unfolding s_def by auto
qed

text \<open>
  As the claim states it, any buffer of the list with the requested identity would be
  the one returned. After \<^verbatim>\<open>binit\<close> with two buffers both have device 0 and block 0 and
  both are in bucket 0, buffer 1 first; \<^verbatim>\<open>bread(0, 0)\<close> returns buffer 1, not buffer 0.
\<close>

theorem bread_hit_counterexample:
  "bucket_list (bcache (boot 2)) (HASH 0) = Some [Buf 1, Buf 0] \<and>
   dev (bcache (boot 2) (Buf 0)) = 0 \<and> blockno (bcache (boot 2) (Buf 0)) = 0 \<and>
   returned (bread 2 7 0 0 (boot 2)) = Some (Buf 1) \<and>
   returned (bread 2 7 0 0 (boot 2)) \<noteq> Some (Buf 0)"
  by code_simp

subsection \<open>Reference accounting\<close>

lemma bread_refcnt:
  assumes w: "well_linked NBUF (bcache s) L"
    and r: "bread NBUF pid d bn s = Some (Return s' b) \<or> bread NBUF pid d bn s = Some (Sleeping s' b)"
  shows "refcnt (bcache s' p) = refcnt (bcache s p) + (if p = b then 1 else 0)"
proof -
  have fin: "\<And>b0 s0. bread NBUF pid d bn s = Some (after_bget (acquiresleep pid b0 s0)) \<Longrightarrow>
     b = b0 \<and> refcnt (bcache s' p) = refcnt (bcache s0 p)"
  proof -
    fix b0 s0 assume "bread NBUF pid d bn s = Some (after_bget (acquiresleep pid b0 s0))"
    with r have "after_bget (acquiresleep pid b0 s0) = Return s' b \<or>
                 after_bget (acquiresleep pid b0 s0) = Sleeping s' b" by simp
    then show "b = b0 \<and> refcnt (bcache s' p) = refcnt (bcache s0 p)"
      by (auto simp: acquiresleep_slept bread_tail_simps slept_fields split: if_splits)
  qed
  from w show ?thesis
  proof (cases rule: bget_cases[where d = d and bn = bn and pid = pid])
    case (hit b0 s0)
    from fin[of b0 s0] hit(2) have "b = b0 \<and> refcnt (bcache s' p) = refcnt (bcache s0 p)"
      by (simp add: bread_def)
    then show ?thesis by (simp add: hit(3))
  next
    case (same i s0 es)
    from fin[of "Buf i" s0] same(6) have "b = Buf i \<and> refcnt (bcache s' p) = refcnt (bcache s0 p)"
      by (simp add: bread_def)
    then show ?thesis using same(4) by (simp add: same(7) claimed_def)
  next
    case (steal i s0 es)
    from fin[of "Buf i" s0] steal(6) have "b = Buf i \<and> refcnt (bcache s' p) = refcnt (bcache s0 p)"
      by (simp add: bread_def)
    then show ?thesis using steal(4) by (simp add: steal(7) claimed_def push_fields unlink_fields)
  next
    case panic
    then show ?thesis using r by (simp add: bread_def)
  qed
qed

lemma wakeup_refcnt:
  "bread_wakeup pid b s = Return s' b' \<or> bread_wakeup pid b s = Sleeping s' b' \<Longrightarrow>
     refcnt (bcache s' p) = refcnt (bcache s p)"
  by (auto simp: bread_wakeup_def acquiresleep_slept bread_tail_simps slept_fields split: if_splits)

lemma bwrite_refcnt: "bwrite pid b s = Return s' () \<Longrightarrow> refcnt (bcache s' p) = refcnt (bcache s p)"
  by (auto simp: bwrite_def virtio_disk_rw_def Let_def split: if_splits)

lemma brelse_refcnt:
  "brelse pid b s = Return s' () \<Longrightarrow>
     refcnt (bcache s' p) = refcnt (bcache s p) - (if p = b then 1 else 0)"
  by (auto simp: brelse_def releasesleep_def Let_def split: if_splits)

lemma bpin_refcnt: "refcnt (bcache (bpin b s) p) = refcnt (bcache s p) + (if p = b then 1 else 0)"
  by (simp add: bpin_def Let_def)

lemma bunpin_refcnt: "refcnt (bcache (bunpin b s) p) = refcnt (bcache s p) - (if p = b then 1 else 0)"
  by (simp add: bunpin_def Let_def)

lemma exec_refcnt:
  "exec NBUF hist s \<Longrightarrow> refcnt (bcache s p) = of_int (reads hist p + pins hist p)"
proof (induction arbitrary: p rule: exec.induct)
  case (ex_boot dsk)
  show ?case using binit_state(1)[of NBUF dsk] by (simp add: zeroed_def)
next
  case (ex_read hist s pid d bn s' b)
  from exec_ok[OF ex_read(1)] obtain L where "well_linked NBUF (bcache s) L" by (auto simp: bcache_ok_def)
  from bread_refcnt[OF this, of pid d bn s' b p] ex_read(3) ex_read.IH[of p] show ?case by simp
next
  case (ex_read_sleep hist s pid d bn s' b)
  from exec_ok[OF ex_read_sleep(1)] obtain L where "well_linked NBUF (bcache s) L" by (auto simp: bcache_ok_def)
  from bread_refcnt[OF this, of pid d bn s' b p] ex_read_sleep(3) ex_read_sleep.IH[of p] show ?case by simp
next
  case (ex_wakeup hist s pid b s' b')
  from wakeup_refcnt[of pid b s s' b' p] ex_wakeup(3) ex_wakeup.IH[of p] show ?case by simp
next
  case (ex_wakeup_sleep hist s pid b s' b')
  from wakeup_refcnt[of pid b s s' b' p] ex_wakeup_sleep(3) ex_wakeup_sleep.IH[of p] show ?case by simp
next
  case (ex_write hist s pid i s')
  from bwrite_refcnt[OF ex_write(4), of p] ex_write.IH[of p] show ?case by simp
next
  case (ex_release hist s pid i s')
  from brelse_refcnt[OF ex_release(4), of p] ex_release.IH[of p] show ?case by simp
next
  case (ex_pin hist s i)
  from ex_pin.IH[of p] show ?case by (simp add: bpin_refcnt)
next
  case (ex_unpin hist s i)
  from ex_unpin.IH[of p] show ?case by (simp add: bunpin_refcnt)
qed

lemma paired_nonneg: "paired hist \<Longrightarrow> 0 \<le> reads hist b \<and> 0 \<le> pins hist b"
proof (induction hist)
  case Nil
  show ?case by simp
next
  case (Cons c hist)
  then show ?case by (cases c) (auto split: if_splits)
qed

lemma uint_count: "uint (of_int k :: 32 word) = k mod 2 ^ 32"
  by (simp add: uint_word_of_int_eq take_bit_eq_mod)

lemma uint_small_count: "0 \<le> k \<Longrightarrow> k < 2 ^ 32 \<Longrightarrow> uint (of_int k :: 32 word) = k"
  by (simp add: uint_word_of_int_eq take_bit_int_eq_self)

text \<open>
  C8, in the form that holds of the code: along every run in which each \<^verbatim>\<open>brelse\<close> of a
  buffer follows a \<^verbatim>\<open>bread\<close> of it that is not yet released, and each \<^verbatim>\<open>bunpin\<close> follows
  a \<^verbatim>\<open>bpin\<close> that is not yet undone, the number of reads not yet released and the number
  of pins not yet undone are not negative, and \<open>refcnt\<close> of every buffer of the pool is
  their sum modulo \<open>2 ^ 32\<close>: it is the number of outstanding holds as long as that number
  is below \<open>2 ^ 32\<close>.
\<close>

theorem refcnt_counts_holds:
  assumes "exec NBUF hist s" and "paired hist" and "i < NBUF"
  shows "refcnt (bcache s (Buf i)) = of_int (reads hist (Buf i) + pins hist (Buf i)) \<and>
         0 \<le> reads hist (Buf i) \<and> 0 \<le> pins hist (Buf i) \<and>
         uint (refcnt (bcache s (Buf i))) = (reads hist (Buf i) + pins hist (Buf i)) mod 2 ^ 32 \<and>
         (reads hist (Buf i) + pins hist (Buf i) < 2 ^ 32 \<longrightarrow>
            uint (refcnt (bcache s (Buf i))) = reads hist (Buf i) + pins hist (Buf i))"
proof -
  have r: "refcnt (bcache s (Buf i)) = of_int (reads hist (Buf i) + pins hist (Buf i))"
    by (rule exec_refcnt[OF assms(1)])
  have n: "0 \<le> reads hist (Buf i)" "0 \<le> pins hist (Buf i)"
    using paired_nonneg[OF assms(2), of "Buf i"] by simp_all
  have m: "uint (refcnt (bcache s (Buf i))) = (reads hist (Buf i) + pins hist (Buf i)) mod 2 ^ 32"
    unfolding r by (rule uint_count)
  have e: "reads hist (Buf i) + pins hist (Buf i) < 2 ^ 32 \<longrightarrow>
            uint (refcnt (bcache s (Buf i))) = reads hist (Buf i) + pins hist (Buf i)"
  proof
    assume lt: "reads hist (Buf i) + pins hist (Buf i) < 2 ^ 32"
    have "0 \<le> reads hist (Buf i) + pins hist (Buf i)" using n by simp
    from uint_small_count[OF this lt]
    show "uint (refcnt (bcache s (Buf i))) = reads hist (Buf i) + pins hist (Buf i)"
      unfolding r .
  qed
  show ?thesis using r n m e by blast
qed

theorem refcnt_counts_holds_witness:
  "exec 2 [Brelse 7 (Buf 1), Bread 7 0 0 (Buf 1)] after_release \<and>
   paired [Brelse 7 (Buf 1), Bread 7 0 0 (Buf 1)] \<and>
   uint (refcnt (bcache after_release (Buf 1))) = 0 \<and>
   exec 2 [Bread 7 0 0 (Buf 1)] (after_read 2) \<and> paired [Bread 7 0 0 (Buf 1)] \<and>
   uint (refcnt (bcache (after_read 2) (Buf 1))) = 1"
proof -
  have p: "paired [Brelse 7 (Buf 1), Bread 7 0 0 (Buf 1)]" "paired [Bread 7 0 0 (Buf 1)]" by simp_all
  have i: "(1::nat) < 2" by simp
  from refcnt_counts_holds[OF exec_after_release p(1) i] refcnt_counts_holds[OF exec_after_read p(2) i]
  show ?thesis using exec_after_release exec_after_read p by simp
qed

text \<open>
  As the claim states it, the count would be the number of holds in every paired run.
  After \<^verbatim>\<open>binit\<close> with one buffer and \<open>2 ^ 32\<close> calls of \<^verbatim>\<open>bpin\<close> on it, none undone, the
  run is paired and the buffer has \<open>2 ^ 32\<close> pins outstanding, and its \<open>refcnt\<close> is 0.
\<close>

lemma exec_pins:
  "exec NBUF hist s \<Longrightarrow> i < NBUF \<Longrightarrow>
     exec NBUF (replicate n (Bpin (Buf i)) @ hist) ((bpin (Buf i) ^^ n) s)"
proof (induction n)
  case 0
  then show ?case by simp
next
  case (Suc n)
  from exec.ex_pin[OF Suc.IH[OF Suc.prems] Suc.prems(2)] show ?case by simp
qed

lemma paired_pins: "paired (replicate n (Bpin b))"
  by (induction n) simp_all

lemma count_pins: "reads (replicate n (Bpin b)) b + pins (replicate n (Bpin b)) b = int n"
  by (induction n) simp_all

lemma many_pins:
  assumes "of_nat n = (0 :: 32 word)"
  shows "exec 1 (replicate n (Bpin (Buf 0))) ((bpin (Buf 0) ^^ n) (boot 1)) \<and>
         paired (replicate n (Bpin (Buf 0))) \<and>
         reads (replicate n (Bpin (Buf 0))) (Buf 0) + pins (replicate n (Bpin (Buf 0))) (Buf 0) = int n \<and>
         refcnt (bcache ((bpin (Buf 0) ^^ n) (boot 1)) (Buf 0)) = 0"
proof -
  have e: "exec 1 (replicate n (Bpin (Buf 0))) ((bpin (Buf 0) ^^ n) (boot 1))"
    using exec_pins[OF exec_boot, of 0 1 n] by simp
  have "refcnt (bcache ((bpin (Buf 0) ^^ n) (boot 1)) (Buf 0)) = of_int (int n)"
    unfolding exec_refcnt[OF e] count_pins ..
  then have "refcnt (bcache ((bpin (Buf 0) ^^ n) (boot 1)) (Buf 0)) = 0" using assms by simp
  then show ?thesis using e paired_pins count_pins by blast
qed

theorem refcnt_counts_holds_counterexample:
  "exec 1 (replicate (2 ^ 32) (Bpin (Buf 0))) ((bpin (Buf 0) ^^ (2 ^ 32)) (boot 1)) \<and>
   paired (replicate (2 ^ 32) (Bpin (Buf 0))) \<and>
   reads (replicate (2 ^ 32) (Bpin (Buf 0))) (Buf 0) + pins (replicate (2 ^ 32) (Bpin (Buf 0))) (Buf 0)
     = int (2 ^ 32) \<and>
   refcnt (bcache ((bpin (Buf 0) ^^ (2 ^ 32)) (boot 1)) (Buf 0)) = 0"
proof (rule many_pins)
  show "of_nat (2 ^ 32) = (0 :: 32 word)" by simp
qed

subsection \<open>Deadlock\<close>

text \<open>
  Alone, a caller of the step machine does what \<open>bget\<close> does, on each of its three
  paths after \<^verbatim>\<open>binit\<close> with two buffers: a buffer taken from another bucket, a buffer
  claimed in the home bucket, a hit.
\<close>

lemma step_machine_agrees:
  "agrees 2 0 1 [Head 0, Head 1, Buf 0, Buf 1]"
  "agrees 2 0 13 [Head 0, Head 1, Buf 0, Buf 1]"
  "agrees 2 0 0 [Head 0, Head 1, Buf 0, Buf 1]"
  by code_simp+

lemma step_at_others: "step_at l NBUF t c = Some c' \<Longrightarrow> u \<noteq> t \<Longrightarrow> thr c' u = thr c u"
  by (cases l)
     (auto simp: jump_def store_def spin_acquire_def spin_release_def sleep_acquire_def
           split: if_splits)

lemma bget_step_others: "bget_step NBUF t c = Some c' \<Longrightarrow> u \<noteq> t \<Longrightarrow> thr c' u = thr c u"
  unfolding bget_step_def by (rule step_at_others)

lemma run_others: "run NBUF ts c = Some c' \<Longrightarrow> u \<notin> set ts \<Longrightarrow> thr c' u = thr c u"
proof (induction ts arbitrary: c)
  case Nil
  then show ?case by simp
next
  case (Cons t ts)
  from Cons.prems(1) obtain c1 where c1: "bget_step NBUF t c = Some c1" "run NBUF ts c1 = Some c'"
    by (auto split: option.splits)
  have "thr c' u = thr c1 u" using Cons.IH[OF c1(2)] Cons.prems(2) by simp
  moreover have "thr c1 u = thr c u" using bget_step_others[OF c1(1), of u] Cons.prems(2) by simp
  ultimately show ?case by simp
qed

text \<open>
  C9 fails on the code. After \<^verbatim>\<open>binit\<close> with one buffer, CPU 1 calls \<^verbatim>\<open>bget(0, 1)\<close> and
  CPU 2 calls \<^verbatim>\<open>bget(0, 13)\<close>. CPU 1 runs lines 69 and 70, CPU 2 runs lines 69 to 82 and
  misses, CPU 1 runs lines 73 to 92. Then CPU 1 holds the lock of bucket 1 and the master
  lock and waits at line 109 for the lock of bucket 0; CPU 2 holds the lock of bucket 0
  and waits at line 85 for the master lock. Both calls are unfinished and no caller can
  take a step, now or ever.
\<close>

theorem bget_deadlock:
  "\<exists>c. run 1 [1, 1, 2, 2, 2, 2, 2, 2, 2, 1, 1, 1, 1, 1, 1, 1]
          (two_callers 1 (caller 0 1) (caller 0 13)) = Some c \<and>
       pc (thr c 1) = L109 \<and> pc (thr c 2) = L85 \<and>
       spin c Master = Some 1 \<and> spin c (Bucket 1) = Some 1 \<and> spin c (Bucket 0) = Some 2 \<and>
       (\<forall>t. bget_step 1 t c = None)"
proof -
  define c0 where "c0 = two_callers 1 (caller 0 1) (caller 0 13)"
  define sched :: "nat list" where "sched = [1, 1, 2, 2, 2, 2, 2, 2, 2, 1, 1, 1, 1, 1, 1, 1]"
  have "run 1 sched c0 \<noteq> None" unfolding sched_def c0_def by code_simp
  then obtain c where c: "run 1 sched c0 = Some c" by auto
  have obs: "pc (thr (the (run 1 sched c0)) 1) = L109" "pc (thr (the (run 1 sched c0)) 2) = L85"
    "spin (the (run 1 sched c0)) Master = Some 1" "spin (the (run 1 sched c0)) (Bucket 1) = Some 1"
    "spin (the (run 1 sched c0)) (Bucket 0) = Some 2"
    "v_current_h (thr (the (run 1 sched c0)) 1) = 0"
    unfolding sched_def c0_def by code_simp+
  have tc: "the (run 1 sched c0) = c" by (simp only: c option.sel)
  note o = obs[unfolded tc]
  have "bget_step 1 t c = None" for t
  proof -
    consider "t = 1" | "t = 2" | "t \<noteq> 1" "t \<noteq> 2" by blast
    then show ?thesis
    proof cases
      case 1
      then show ?thesis using o by (simp add: bget_step_def spin_acquire_def)
    next
      case 2
      then show ?thesis using o by (simp add: bget_step_def spin_acquire_def)
    next
      case 3
      then have "t \<notin> set sched" by (simp add: sched_def)
      from run_others[OF c this] 3 have "thr c t = idle" by (simp add: c0_def two_callers_def)
      then show ?thesis by (simp add: bget_step_def idle_def)
    qed
  qed
  then show ?thesis using c o unfolding sched_def c0_def by blast
qed

subsection \<open>bwrite and brelse\<close>

text \<open>
  C6: \<^verbatim>\<open>bwrite\<close> and \<^verbatim>\<open>brelse\<close> each panic exactly when the caller does not hold the sleep
  lock of the buffer. With the lock held, \<^verbatim>\<open>bwrite\<close> returns after the transfer out, and
  \<^verbatim>\<open>brelse\<close> returns having released the sleep lock first and then decremented
  \<open>refcnt\<close> between the acquire and the release of the lock of the buffer's bucket: the
  count is still the old one in the memory logged at the acquire and one less in the
  memory logged at the release.
\<close>

theorem bwrite_brelse_need_sleeplock:
  "((\<exists>msg. bwrite pid b s = Panic msg) \<longleftrightarrow> \<not> holdingsleep pid b s) \<and>
   ((\<exists>msg. brelse pid b s = Panic msg) \<longleftrightarrow> \<not> holdingsleep pid b s) \<and>
   (holdingsleep pid b s \<longrightarrow>
      (\<exists>s'. bwrite pid b s = Return s' () \<and>
         disk s' = (disk s)((dev (bcache s b), blockno (bcache s b)) := data (bcache s b)) \<and>
         log s' = log s @ [(DiskRW b True, bcache s)]) \<and>
      (\<exists>s' m1 m2. brelse pid b s = Return s' () \<and>
         m1 = (bcache s)(b := (bcache s b)\<lparr>lock := None\<rparr>) \<and>
         m2 = m1(b := (m1 b)\<lparr>refcnt := refcnt (bcache s b) - 1\<rparr>) \<and>
         bcache s' = m2 \<and> disk s' = disk s \<and> chan s' = chan s \<and>
         log s' = log s @ [(ReleaseSleep b, m1),
                           (Acquire (Bucket (HASH (blockno (bcache s b)))), m1),
                           (Release (Bucket (HASH (blockno (bcache s b)))), m2)]))"
  by (simp add: bwrite_def brelse_def virtio_disk_rw_def releasesleep_def Let_def)

theorem bwrite_brelse_need_sleeplock_witness:
  "holdingsleep 7 (Buf 1) (after_read 2) \<and> refcnt (bcache (after_read 2) (Buf 1)) = 1 \<and>
   (\<exists>s'. brelse 7 (Buf 1) (after_read 2) = Return s' () \<and>
      lock (bcache s' (Buf 1)) = None \<and> refcnt (bcache s' (Buf 1)) = 0) \<and>
   (\<exists>s'. bwrite 7 (Buf 1) (after_read 2) = Return s' ())"
proof -
  have h: "holdingsleep 7 (Buf 1) (after_read 2)" by code_simp
  have r: "refcnt (bcache (after_read 2) (Buf 1)) = 1" by code_simp
  show ?thesis
    using bwrite_brelse_need_sleeplock[of 7 "Buf 1" "after_read 2"] h r by auto
qed

text \<open>
  C10: called with the sleep lock held, \<^verbatim>\<open>bwrite\<close> returns and leaves the memory of
  \<^verbatim>\<open>bcache\<close> as it was, every field of every buffer and of every list head; the sleeping
  processes are the same; the one effect is the transfer out, which stores the payload
  in the disk block the buffer names.
\<close>

theorem bwrite_frame:
  "holdingsleep pid b s \<Longrightarrow>
     \<exists>s'. bwrite pid b s = Return s' () \<and> bcache s' = bcache s \<and> chan s' = chan s \<and>
       disk s' = (disk s)((dev (bcache s b), blockno (bcache s b)) := data (bcache s b)) \<and>
       log s' = log s @ [(DiskRW b True, bcache s)]"
  by (simp add: bwrite_def virtio_disk_rw_def Let_def)

theorem bwrite_frame_witness:
  "holdingsleep 7 (Buf 1) (after_read 2) \<and>
   (\<exists>s'. bwrite 7 (Buf 1) (after_read 2) = Return s' () \<and>
      bcache s' = bcache (after_read 2) \<and> chan s' = chan (after_read 2))"
proof -
  have h: "holdingsleep 7 (Buf 1) (after_read 2)" by code_simp
  show ?thesis using bwrite_frame[OF h] h by auto
qed

end
